theory Spec2Isabelle
  imports Main "HOL-Library.Word" "HOL-Library.AList"
begin

unbundle bit_operations_syntax

section \<open>MiniGit (src/minigit.py): data\<close>

text \<open>
  The program is one Python class, \<open>MiniGit\<close>, whose methods read and write files below a
  repository directory and print their reports. The embedding follows the source line by
  line; the library calls the source makes (\<open>hashlib.sha1\<close>, \<open>str.encode\<close>, text-mode
  \<open>open\<close>, \<open>json.dump\<close>, \<open>json.load\<close>, \<open>os.path\<close>, \<open>print\<close>) are modelled as HOL
  functions of their own.

  Environment: a POSIX platform with a UTF-8 locale, so that text files and the standard
  output are UTF-8 with strict error handling and \<open>os.linesep\<close> is a line feed. A file is
  identified with its path string (no symbolic links, no resolution of \<open>.\<close> or \<open>..\<close>), and
  the only I/O failures are the ones that follow from which files and directories exist.
\<close>

type_synonym bytes = "char list"
  \<comment> \<open>a Python \<open>bytes\<close> value, and the content of a file\<close>

type_synonym str = "nat list"
  \<comment> \<open>a Python \<open>str\<close>: its code points; a \<open>str\<close> may hold surrogates (0xD800..0xDFFF)\<close>

definition lit :: "string \<Rightarrow> str" where
  \<comment> \<open>an ASCII literal of the source as a \<open>str\<close>\<close>
  "lit cs = map of_char cs"

datatype py_error =
    FileNotFoundError | FileExistsError | IsADirectoryError | NotADirectoryError
  | UnicodeDecodeError | UnicodeEncodeError | JSONDecodeError | TypeError

datatype pyval = PyNone | PyStr str
  \<comment> \<open>what a method returns\<close>

section \<open>hashlib.sha1\<close>

type_synonym u32 = "32 word"

definition rotl :: "nat \<Rightarrow> u32 \<Rightarrow> u32" where
  "rotl n x = push_bit n x OR drop_bit (32 - n) x"

definition be_bytes :: "nat \<Rightarrow> nat \<Rightarrow> bytes" where
  \<comment> \<open>the \<open>k\<close> low-order bytes of \<open>n\<close>, most significant first\<close>
  "be_bytes k n = map (\<lambda>i. char_of (n div 256 ^ (k - Suc i))) [0..<k]"

definition sha1_pad :: "bytes \<Rightarrow> bytes" where
  "sha1_pad m =
     m @ [char_of (0x80::nat)] @ replicate ((119 - length m mod 64) mod 64) (char_of (0::nat))
       @ be_bytes 8 (8 * length m)"

fun be_words :: "bytes \<Rightarrow> u32 list" where
  "be_words (a # b # c # d # bs) =
     (push_bit 24 (of_char a) OR push_bit 16 (of_char b) OR push_bit 8 (of_char c) OR of_char d)
       # be_words bs"
| "be_words _ = []"

fun sha1_expand :: "nat \<Rightarrow> u32 list \<Rightarrow> u32 list" where
  \<comment> \<open>the message schedule, kept newest first: \<open>ws ! 2\<close> is W[t-3] and so on\<close>
  "sha1_expand 0 ws = ws"
| "sha1_expand (Suc n) ws =
     sha1_expand n (rotl 1 (ws ! 2 XOR ws ! 7 XOR ws ! 13 XOR ws ! 15) # ws)"

definition sha1_f :: "nat \<Rightarrow> u32 \<Rightarrow> u32 \<Rightarrow> u32 \<Rightarrow> u32" where
  "sha1_f t b c d =
     (if t < 20 then (b AND c) OR (NOT b AND d)
      else if t < 40 then b XOR c XOR d
      else if t < 60 then (b AND c) OR (b AND d) OR (c AND d)
      else b XOR c XOR d)"

definition sha1_k :: "nat \<Rightarrow> u32" where
  "sha1_k t =
     (if t < 20 then 0x5A827999 else if t < 40 then 0x6ED9EBA1
      else if t < 60 then 0x8F1BBCDC else 0xCA62C1D6)"

type_synonym sha1_state = "u32 \<times> u32 \<times> u32 \<times> u32 \<times> u32"

fun sha1_round :: "sha1_state \<Rightarrow> nat \<times> u32 \<Rightarrow> sha1_state" where
  "sha1_round (a, b, c, d, e) (t, w) =
     (rotl 5 a + sha1_f t b c d + e + sha1_k t + w, a, rotl 30 b, c, d)"

fun sha1_block :: "sha1_state \<Rightarrow> bytes \<Rightarrow> sha1_state" where
  "sha1_block (h0, h1, h2, h3, h4) blk =
     (case foldl sha1_round (h0, h1, h2, h3, h4)
             (zip [0..<80] (rev (sha1_expand 64 (rev (be_words blk))))) of
        (a, b, c, d, e) \<Rightarrow> (h0 + a, h1 + b, h2 + c, h3 + d, h4 + e))"

fun sha1_blocks :: "nat \<Rightarrow> sha1_state \<Rightarrow> bytes \<Rightarrow> sha1_state" where
  "sha1_blocks 0 h bs = h"
| "sha1_blocks (Suc n) h bs = sha1_blocks n (sha1_block h (take 64 bs)) (drop 64 bs)"

definition sha1 :: "bytes \<Rightarrow> sha1_state" where
  "sha1 m =
     sha1_blocks (length (sha1_pad m) div 64)
       (0x67452301, 0xEFCDAB89, 0x98BADCFE, 0x10325476, 0xC3D2E1F0) (sha1_pad m)"

definition hexdigit :: "nat \<Rightarrow> nat" where
  \<comment> \<open>the code point of a lower-case hexadecimal digit\<close>
  "hexdigit d = (if d < 10 then 48 + d else 87 + d)"

definition hex32 :: "u32 \<Rightarrow> str" where
  "hex32 w = map (\<lambda>i. hexdigit (unat (drop_bit (4 * (7 - i)) w AND 15))) [0..<8]"

fun sha1_hexdigest :: "bytes \<Rightarrow> str" where
  "sha1_hexdigest m =
     (case sha1 m of (h0, h1, h2, h3, h4) \<Rightarrow>
        hex32 h0 @ hex32 h1 @ hex32 h2 @ hex32 h3 @ hex32 h4)"


section \<open>Text: UTF-8 and universal newlines\<close>

definition scalar :: "nat \<Rightarrow> bool" where
  \<comment> \<open>a code point that UTF-8 encodes: not a surrogate\<close>
  "scalar c = (c < 0x110000 \<and> \<not> (0xD800 \<le> c \<and> c \<le> 0xDFFF))"

definition utf8_char :: "nat \<Rightarrow> bytes" where
  "utf8_char c =
     (if c < 0x80 then [char_of c]
      else if c < 0x800 then [char_of (0xC0 + c div 64), char_of (0x80 + c mod 64)]
      else if c < 0x10000 then
        [char_of (0xE0 + c div 4096), char_of (0x80 + c div 64 mod 64), char_of (0x80 + c mod 64)]
      else
        [char_of (0xF0 + c div 262144), char_of (0x80 + c div 4096 mod 64),
         char_of (0x80 + c div 64 mod 64), char_of (0x80 + c mod 64)])"

definition utf8_encode :: "str \<Rightarrow> py_error + bytes" where
  \<comment> \<open>\<open>s.encode()\<close>, and the encoder of a text file and of the standard output\<close>
  "utf8_encode s =
     (if list_all scalar s then Inr (concat (map utf8_char s)) else Inl UnicodeEncodeError)"

definition cont :: "char \<Rightarrow> bool" where
  \<comment> \<open>a continuation byte \<open>10xxxxxx\<close>\<close>
  "cont b = (0x80 \<le> (of_char b :: nat) \<and> (of_char b :: nat) < 0xC0)"

definition cons_ok :: "'a \<Rightarrow> 'e + 'a list \<Rightarrow> 'e + 'a list" where
  "cons_ok x r = (case r of Inl e \<Rightarrow> Inl e | Inr xs \<Rightarrow> Inr (x # xs))"

definition utf8_first :: "bytes \<Rightarrow> (nat \<times> bytes) option" where
  \<comment> \<open>the code point the bytes start with and the bytes behind it; \<open>None\<close> when they start
      with no well-formed sequence (a stray or missing continuation byte, an overlong form,
      a surrogate, a value above 0x10FFFF)\<close>
  "utf8_first bs =
     (case bs of
        [] \<Rightarrow> None
      | b0 # r0 \<Rightarrow>
          (let n0 = (of_char b0 :: nat) in
           if n0 < 0x80 then Some (n0, r0)
           else if n0 < 0xE0 then
             (case r0 of
                b1 # r \<Rightarrow>
                  (let c = (n0 - 0xC0) * 64 + (of_char b1 - 0x80) in
                   if 0xC0 \<le> n0 \<and> cont b1 \<and> 0x80 \<le> c then Some (c, r) else None)
              | _ \<Rightarrow> None)
           else if n0 < 0xF0 then
             (case r0 of
                b1 # b2 # r \<Rightarrow>
                  (let c = (n0 - 0xE0) * 4096 + (of_char b1 - 0x80) * 64 + (of_char b2 - 0x80) in
                   if cont b1 \<and> cont b2 \<and> 0x800 \<le> c \<and> scalar c then Some (c, r) else None)
              | _ \<Rightarrow> None)
           else
             (case r0 of
                b1 # b2 # b3 # r \<Rightarrow>
                  (let c = (n0 - 0xF0) * 262144 + (of_char b1 - 0x80) * 4096
                             + (of_char b2 - 0x80) * 64 + (of_char b3 - 0x80) in
                   if n0 < 0xF8 \<and> cont b1 \<and> cont b2 \<and> cont b3 \<and> 0x10000 \<le> c \<and> scalar c
                   then Some (c, r) else None)
              | _ \<Rightarrow> None)))"

lemma utf8_first_shorter: "utf8_first bs = Some (c, r) \<Longrightarrow> length r < length bs"
  unfolding utf8_first_def Let_def
  by (auto split: list.splits if_splits)

lemma utf8_first_scalar: "utf8_first bs = Some (c, r) \<Longrightarrow> scalar c"
proof -
  have small: "n < 2048 \<Longrightarrow> scalar n" for n
    by (simp add: scalar_def)
  assume "utf8_first bs = Some (c, r)"
  then show ?thesis
    unfolding utf8_first_def Let_def cont_def
    by (auto split: list.splits if_splits intro: small)
qed

function utf8_decode :: "bytes \<Rightarrow> py_error + str" where
  \<comment> \<open>the strict UTF-8 decoder of a text file\<close>
  "utf8_decode [] = Inr []"
| "utf8_decode (b # bs) =
     (case utf8_first (b # bs) of
        None \<Rightarrow> Inl UnicodeDecodeError
      | Some (c, r) \<Rightarrow> cons_ok c (utf8_decode r))"
  by pat_completeness auto
termination
  by (relation "measure length") (auto dest: utf8_first_shorter)

fun universal_newlines :: "str \<Rightarrow> str" where
  \<comment> \<open>reading with \<open>newline=None\<close>: CR LF and a lone CR both become LF\<close>
  "universal_newlines [] = []"
| "universal_newlines [c] = (if c = 13 then [10] else [c])"
| "universal_newlines (c # d # r) =
     (if c = 13 \<and> d = 10 then 10 # universal_newlines r
      else if c = 13 then 10 # universal_newlines (d # r)
      else c # universal_newlines (d # r))"

section \<open>The file system and the standard output\<close>

record world =
  files :: "str \<Rightarrow> bytes option"
  dirs :: "str set"
  out :: "str list"

definition path_join :: "str \<Rightarrow> str \<Rightarrow> str" where
  \<comment> \<open>\<open>os.path.join(a, b)\<close> of posixpath\<close>
  "path_join a b =
     (if b \<noteq> [] \<and> hd b = 47 then b
      else if a = [] \<or> last a = 47 then a @ b
      else a @ 47 # b)"

definition rstrip_slash :: "str \<Rightarrow> str" where
  "rstrip_slash p = rev (dropWhile (\<lambda>c. c = 47) (rev p))"

definition dirname :: "str \<Rightarrow> str" where
  \<comment> \<open>\<open>os.path.dirname\<close> of posixpath\<close>
  "dirname p =
     (let head = rev (dropWhile (\<lambda>c. c \<noteq> 47) (rev p))
      in if list_all (\<lambda>c. c = 47) head then head else rstrip_slash head)"

definition path_exists :: "world \<Rightarrow> str \<Rightarrow> bool" where
  "path_exists w p = (p \<in> dirs w \<or> files w p \<noteq> None)"

definition parent_ok :: "world \<Rightarrow> str \<Rightarrow> bool" where
  \<comment> \<open>the directory a new file would be created in exists: the current directory, the
      root, or a directory of the world\<close>
  "parent_ok w p = (list_all (\<lambda>c. c = 47) (dirname p) \<or> dirname p \<in> dirs w)"

definition ancestors :: "str \<Rightarrow> str list" where
  \<comment> \<open>the directories above \<open>p\<close> that \<open>os.makedirs\<close> creates when they are missing\<close>
  "ancestors p =
     filter (\<lambda>a. a \<noteq> []) (map (\<lambda>i. rstrip_slash (take i p)) (filter (\<lambda>i. p ! i = 47) [0..<length p]))"

definition makedirs :: "str \<Rightarrow> world \<Rightarrow> (py_error + unit) \<times> world" where
  "makedirs p w =
     (if p = [] then (Inl FileNotFoundError, w)
      else if path_exists w p then (Inl FileExistsError, w)
      else if list_ex (\<lambda>a. files w a \<noteq> None) (ancestors p) then (Inl NotADirectoryError, w)
      else (Inr (), w\<lparr>dirs := dirs w \<union> set (ancestors p) \<union> {p}\<rparr>))"

definition read_bytes :: "str \<Rightarrow> world \<Rightarrow> py_error + bytes" where
  "read_bytes p w =
     (if p \<in> dirs w then Inl IsADirectoryError
      else case files w p of None \<Rightarrow> Inl FileNotFoundError | Some b \<Rightarrow> Inr b)"

definition read_text :: "str \<Rightarrow> world \<Rightarrow> py_error + str" where
  \<comment> \<open>\<open>with open(p, 'r') as f: f.read()\<close>\<close>
  "read_text p w =
     (case read_bytes p w of
        Inl e \<Rightarrow> Inl e
      | Inr b \<Rightarrow> (case utf8_decode b of Inl e \<Rightarrow> Inl e | Inr s \<Rightarrow> Inr (universal_newlines s)))"

definition write_text :: "str \<Rightarrow> str \<Rightarrow> world \<Rightarrow> (py_error + unit) \<times> world" where
  \<comment> \<open>\<open>with open(p, 'w') as f: f.write(s)\<close>: opening truncates the file, so a text that
      cannot be encoded leaves it empty\<close>
  "write_text p s w =
     (if p \<in> dirs w then (Inl IsADirectoryError, w)
      else if \<not> parent_ok w p then (Inl FileNotFoundError, w)
      else case utf8_encode s of
             Inl e \<Rightarrow> (Inl e, w\<lparr>files := (files w)(p \<mapsto> [])\<rparr>)
           | Inr b \<Rightarrow> (Inr (), w\<lparr>files := (files w)(p \<mapsto> b)\<rparr>))"

definition py_print :: "str \<Rightarrow> world \<Rightarrow> (py_error + unit) \<times> world" where
  \<comment> \<open>\<open>print(s)\<close>: one more line on the standard output\<close>
  "py_print s w =
     (case utf8_encode s of
        Inl e \<Rightarrow> (Inl e, w)
      | Inr b \<Rightarrow> (Inr (), w\<lparr>out := out w @ [s]\<rparr>))"


section \<open>json.dumps and json.loads\<close>

text \<open>
  The documents of this program are objects whose values are strings or objects: the index
  is a \<open>dict\<close> from path to hash, a commit is a \<open>dict\<close> with a message and the index. A
  Python \<open>dict\<close> keeps its keys in insertion order, and assigning to a key that is present
  keeps its place: an association list with \<open>AList.update\<close>. Any other JSON value
  (array, number, literal) is outside the model: \<open>json_loads\<close> reports it as an error.
\<close>

datatype json = JStr str | JObj "(str \<times> json) list"

definition hex4 :: "nat \<Rightarrow> str" where
  \<comment> \<open>\<open>'{0:04x}'.format(n)\<close>\<close>
  "hex4 n = [hexdigit (n div 4096 mod 16), hexdigit (n div 256 mod 16),
             hexdigit (n div 16 mod 16), hexdigit (n mod 16)]"

definition json_escape :: "nat \<Rightarrow> str" where
  \<comment> \<open>one character under \<open>ensure_ascii=True\<close>\<close>
  "json_escape c =
     (if c = 34 then [92, 34] else if c = 92 then [92, 92]
      else if c = 8 then [92, 98] else if c = 12 then [92, 102]
      else if c = 10 then [92, 110] else if c = 13 then [92, 114]
      else if c = 9 then [92, 116]
      else if 32 \<le> c \<and> c \<le> 126 then [c]
      else if c < 0x10000 then 92 # 117 # hex4 c
      else 92 # 117 # hex4 (0xD800 + (c - 0x10000) div 1024 mod 1024)
             @ 92 # 117 # hex4 (0xDC00 + (c - 0x10000) mod 1024))"

definition json_string :: "str \<Rightarrow> str" where
  "json_string s = 34 # concat (map json_escape s) @ [34]"

fun join_with :: "'a list \<Rightarrow> 'a list list \<Rightarrow> 'a list" where
  "join_with sep [] = []"
| "join_with sep [x] = x"
| "join_with sep (x # y # ys) = x @ sep @ join_with sep (y # ys)"

fun json_dumps :: "nat option \<Rightarrow> nat \<Rightarrow> json \<Rightarrow> str" where
  \<comment> \<open>\<open>json.dumps(v, indent=ind)\<close> at nesting level \<open>lvl\<close>\<close>
  "json_dumps ind lvl (JStr s) = json_string s"
| "json_dumps ind lvl (JObj kvs) =
     (if kvs = [] then [123, 125]
      else case ind of
        None \<Rightarrow>
          123 # join_with [44, 32]
                  (map (\<lambda>kv. json_string (fst kv) @ [58, 32] @ json_dumps ind (Suc lvl) (snd kv)) kvs)
            @ [125]
      | Some k \<Rightarrow>
          123 # 10 # replicate (k * Suc lvl) 32
            @ join_with (44 # 10 # replicate (k * Suc lvl) 32)
                  (map (\<lambda>kv. json_string (fst kv) @ [58, 32] @ json_dumps ind (Suc lvl) (snd kv)) kvs)
            @ 10 # replicate (k * lvl) 32 @ [125])"

definition hexval :: "nat \<Rightarrow> nat option" where
  "hexval c =
     (if 48 \<le> c \<and> c \<le> 57 then Some (c - 48)
      else if 97 \<le> c \<and> c \<le> 102 then Some (c - 87)
      else if 65 \<le> c \<and> c \<le> 70 then Some (c - 55)
      else None)"

definition unhex4 :: "str \<Rightarrow> nat option" where
  "unhex4 s =
     (case s of
        [a, b, c, d] \<Rightarrow>
          (case (hexval a, hexval b, hexval c, hexval d) of
             (Some x, Some y, Some z, Some u) \<Rightarrow> Some (x * 4096 + y * 256 + z * 16 + u)
           | _ \<Rightarrow> None)
      | _ \<Rightarrow> None)"

definition unescape :: "nat \<Rightarrow> nat option" where
  \<comment> \<open>the character after a backslash, other than \<open>u\<close>\<close>
  "unescape e =
     (if e = 34 then Some 34 else if e = 92 then Some 92 else if e = 47 then Some 47
      else if e = 98 then Some 8 else if e = 102 then Some 12 else if e = 110 then Some 10
      else if e = 114 then Some 13 else if e = 116 then Some 9 else None)"

definition cons_fst :: "'a \<Rightarrow> ('a list \<times> 'b) option \<Rightarrow> ('a list \<times> 'b) option" where
  "cons_fst x r = (case r of None \<Rightarrow> None | Some (xs, y) \<Rightarrow> Some (x # xs, y))"

function scan_string :: "str \<Rightarrow> (str \<times> str) option" where
  \<comment> \<open>\<open>scanstring\<close> from behind the opening quote: the string and the rest of the input\<close>
  "scan_string [] = None"
| "scan_string (c # r) =
     (if c = 34 then Some ([], r)
      else if c = 92 then
        (case r of
           [] \<Rightarrow> None
         | e # r' \<Rightarrow>
             if e = 117 then
               (case unhex4 (take 4 r') of
                  None \<Rightarrow> None
                | Some u \<Rightarrow>
                    if 0xD800 \<le> u \<and> u \<le> 0xDBFF \<and> take 2 (drop 4 r') = [92, 117] then
                      (case unhex4 (take 4 (drop 6 r')) of
                         None \<Rightarrow> None
                       | Some u2 \<Rightarrow>
                           if 0xDC00 \<le> u2 \<and> u2 \<le> 0xDFFF
                           then cons_fst (0x10000 + (u - 0xD800) * 1024 + (u2 - 0xDC00))
                                  (scan_string (drop 10 r'))
                           else cons_fst u (scan_string (drop 4 r')))
                    else cons_fst u (scan_string (drop 4 r')))
             else (case unescape e of
                     None \<Rightarrow> None
                   | Some x \<Rightarrow> cons_fst x (scan_string r')))
      else if c < 32 then None
      else cons_fst c (scan_string r))"
  by pat_completeness auto
termination
  by (relation "measure length") auto

definition skip_ws :: "str \<Rightarrow> str" where
  "skip_ws s = dropWhile (\<lambda>c. c = 32 \<or> c = 9 \<or> c = 10 \<or> c = 13) s"

lemma length_skip_ws: "length (skip_ws s) \<le> length s"
  by (simp add: skip_ws_def length_dropWhile_le)

lemma scan_string_shorter: "scan_string s = Some (k, r) \<Longrightarrow> length r < length s"
proof (induction s arbitrary: k r rule: scan_string.induct)
  case 1
  then show ?case by simp
next
  case (2 c r0)
  show ?case
    using "2.prems" "2.IH"
    by (fastforce simp: cons_fst_def less_Suc_eq
          split: if_splits list.splits option.splits prod.splits)
qed

function parse_value :: "str \<Rightarrow> (json \<times> str) option"
  and parse_members :: "(str \<times> json) list \<Rightarrow> str \<Rightarrow> (json \<times> str) option" where
  \<comment> \<open>\<open>scan_once\<close>: a string or an object\<close>
  "parse_value s =
     (case s of
        [] \<Rightarrow> None
      | c # r \<Rightarrow>
          if c = 34 then (case scan_string r of None \<Rightarrow> None | Some (x, r') \<Rightarrow> Some (JStr x, r'))
          else if c = 123 then
            (case skip_ws r of
               [] \<Rightarrow> None
             | d # r' \<Rightarrow>
                 if d = 125 then Some (JObj [], r')
                 else if d = 34 then parse_members [] r'
                 else None)
          else None)"
| \<comment> \<open>the loop of \<open>JSONObject\<close>, from behind the opening quote of a key; \<open>acc\<close> is the
      \<open>dict\<close> of the pairs read so far. The test \<open>length r5 < length s\<close> is always true
      (lemma \<open>parse_members_loop\<close> below); it makes the termination plain.\<close>
  "parse_members acc s =
     (case scan_string s of
        None \<Rightarrow> None
      | Some (k, r1) \<Rightarrow>
          (case skip_ws r1 of
             [] \<Rightarrow> None
           | c # r2 \<Rightarrow>
               if c \<noteq> 58 then None
               else case parse_value (skip_ws r2) of
                 None \<Rightarrow> None
               | Some (v, r3) \<Rightarrow>
                   (case skip_ws r3 of
                      [] \<Rightarrow> None
                    | d # r4 \<Rightarrow>
                        if d = 125 then Some (JObj (AList.update k v acc), r4)
                        else if d \<noteq> 44 then None
                        else case skip_ws r4 of
                          [] \<Rightarrow> None
                        | q # r5 \<Rightarrow>
                            if q = 34 \<and> length r5 < length s
                            then parse_members (AList.update k v acc) r5
                            else None)))"
  by pat_completeness auto
termination
proof (relation "measure (\<lambda>x. case x of Inl s \<Rightarrow> 2 * length s + 1 | Inr (acc, s) \<Rightarrow> 2 * length s)",
    goal_cases)
  case 1
  then show ?case by simp
next
  case (2 s c r d r')
  have "length (skip_ws r) \<le> length r" by (rule length_skip_ws)
  with 2 show ?case by simp
next
  case (3 acc s x k r1 c r2)
  have "length r1 < length s" using 3 scan_string_shorter [of s k r1] by auto
  moreover have "length (skip_ws r1) \<le> length r1" by (rule length_skip_ws)
  moreover have "length (skip_ws r2) \<le> length r2" by (rule length_skip_ws)
  ultimately show ?case using 3 by simp
next
  case 4
  then show ?case by simp
qed

definition json_loads :: "str \<Rightarrow> py_error + json" where
  "json_loads s =
     (case parse_value (skip_ws s) of
        None \<Rightarrow> Inl JSONDecodeError
      | Some (v, r) \<Rightarrow> if skip_ws r = [] then Inr v else Inl JSONDecodeError)"


section \<open>class MiniGit\<close>

record minigit =
  repo_dir :: str
  objects_dir :: str
  index_file :: str

definition and_then ::
  "('e + 'a) \<times> world \<Rightarrow> ('a \<Rightarrow> world \<Rightarrow> ('e + 'b) \<times> world) \<Rightarrow> ('e + 'b) \<times> world" where
  \<comment> \<open>the next statement runs when the one before it did not raise\<close>
  "and_then r f = (case r of (Inl e, w) \<Rightarrow> (Inl e, w) | (Inr x, w) \<Rightarrow> f x w)"

definition hash_object :: "str \<Rightarrow> py_error + str" where
  \<comment> \<open>\<open>_hash_object\<close>: \<open>hashlib.sha1(data.encode()).hexdigest()\<close>\<close>
  "hash_object data =
     (case utf8_encode data of Inl e \<Rightarrow> Inl e | Inr b \<Rightarrow> Inr (sha1_hexdigest b))"

definition write_index :: "minigit \<Rightarrow> json \<Rightarrow> world \<Rightarrow> (py_error + unit) \<times> world" where
  \<comment> \<open>\<open>_write_index\<close>: \<open>json.dump(index_data, f)\<close> into the index file\<close>
  "write_index self index_data w = write_text (index_file self) (json_dumps None 0 index_data) w"

definition read_index :: "minigit \<Rightarrow> world \<Rightarrow> py_error + json" where
  \<comment> \<open>\<open>_read_index\<close>: \<open>json.load(f)\<close> of the index file, the empty dict without one\<close>
  "read_index self w =
     (if path_exists w (index_file self) then
        (case read_text (index_file self) w of Inl e \<Rightarrow> Inl e | Inr s \<Rightarrow> json_loads s)
      else Inr (JObj []))"

definition self_of :: "str \<Rightarrow> minigit" where
  \<comment> \<open>the three attributes \<open>__init__\<close> sets (lines 11 to 13)\<close>
  "self_of rd =
     \<lparr>repo_dir = rd, objects_dir = path_join rd (lit ''objects''),
      index_file = path_join rd (lit ''index'')\<rparr>"

definition MiniGit :: "str \<Rightarrow> world \<Rightarrow> (py_error + minigit) \<times> world" where
  \<comment> \<open>\<open>__init__\<close>\<close>
  "MiniGit rd w =
     (let self = self_of rd
      in and_then
           (if \<not> path_exists w (repo_dir self) then
              and_then (makedirs (repo_dir self) w) (\<lambda>_ w.
              and_then (makedirs (objects_dir self) w) (\<lambda>_ w.
              write_index self (JObj []) w))
            else (Inr (), w)) (\<lambda>_ w.
         and_then (py_print (lit ''Initialized empty MiniGit repository in '' @ repo_dir self) w)
           (\<lambda>_ w. (Inr self, w))))"

definition init :: "minigit \<Rightarrow> world \<Rightarrow> (py_error + pyval) \<times> world" where
  "init self w =
     (if path_exists w (repo_dir self) then
        and_then (py_print (lit ''Repository already initialized.'') w) (\<lambda>_ w. (Inr PyNone, w))
      else
        and_then (makedirs (repo_dir self) w) (\<lambda>_ w.
        and_then (makedirs (objects_dir self) w) (\<lambda>_ w.
        and_then (write_index self (JObj []) w) (\<lambda>_ w.
        and_then (py_print (lit ''Initialized empty MiniGit repository in '' @ repo_dir self) w)
          (\<lambda>_ w. (Inr PyNone, w))))))"

definition put :: "minigit \<Rightarrow> str \<Rightarrow> world \<Rightarrow> (py_error + str) \<times> world" where
  \<comment> \<open>the store step that \<open>add\<close> (lines 70 to 75) and \<open>commit\<close> (lines 100 to 105) both
      write out: hash the text, open the file of that name in the objects directory for
      writing, write the text. The value is the hash.\<close>
  "put self data w =
     (case hash_object data of
        Inl e \<Rightarrow> (Inl e, w)
      | Inr h \<Rightarrow>
          and_then (write_text (path_join (objects_dir self) h) data w) (\<lambda>_ w. (Inr h, w)))"

definition setitem :: "json \<Rightarrow> str \<Rightarrow> json \<Rightarrow> py_error + json" where
  \<comment> \<open>\<open>index[k] = v\<close>\<close>
  "setitem d k v = (case d of JObj kvs \<Rightarrow> Inr (JObj (AList.update k v kvs)) | JStr _ \<Rightarrow> Inl TypeError)"

definition falsy :: "json \<Rightarrow> bool" where
  \<comment> \<open>\<open>not v\<close>\<close>
  "falsy v = (case v of JObj kvs \<Rightarrow> kvs = [] | JStr s \<Rightarrow> s = [])"

definition stage :: "minigit \<Rightarrow> str \<Rightarrow> str \<Rightarrow> world \<Rightarrow> (py_error + unit) \<times> world" where
  \<comment> \<open>lines 78 to 80 of \<open>add\<close>: read the index, set the entry of the path, write it back\<close>
  "stage self file_path file_hash w =
     (case read_index self w of
        Inl e \<Rightarrow> (Inl e, w)
      | Inr index \<Rightarrow>
          (case setitem index file_path (JStr file_hash) of
             Inl e \<Rightarrow> (Inl e, w)
           | Inr index' \<Rightarrow> write_index self index' w))"

definition add :: "minigit \<Rightarrow> str \<Rightarrow> world \<Rightarrow> (py_error + pyval) \<times> world" where
  "add self file_path w =
     (if \<not> path_exists w file_path then
        and_then (py_print (lit ''File '' @ file_path @ lit '' does not exist.'') w)
          (\<lambda>_ w. (Inr PyNone, w))
      else case read_text file_path w of
        Inl e \<Rightarrow> (Inl e, w)
      | Inr content \<Rightarrow>
          and_then (put self content w) (\<lambda>file_hash w.
          and_then (stage self file_path file_hash w) (\<lambda>_ w.
          and_then (py_print (lit ''Added file '' @ file_path @ lit '' to the index.'') w)
            (\<lambda>_ w. (Inr PyNone, w)))))"

definition commit_record :: "str \<Rightarrow> json \<Rightarrow> json" where
  \<comment> \<open>\<open>{'message': message, 'files': index}\<close>\<close>
  "commit_record message index = JObj [(lit ''message'', JStr message), (lit ''files'', index)]"

definition commit :: "minigit \<Rightarrow> str \<Rightarrow> world \<Rightarrow> (py_error + pyval) \<times> world" where
  "commit self message w =
     (case read_index self w of
        Inl e \<Rightarrow> (Inl e, w)
      | Inr index \<Rightarrow>
          if falsy index then
            and_then (py_print (lit ''No changes to commit.'') w) (\<lambda>_ w. (Inr PyNone, w))
          else
            and_then (put self (json_dumps (Some 4) 0 (commit_record message index)) w)
              (\<lambda>commit_hash w.
            and_then (py_print (lit ''Committed with message: '' @ message) w) (\<lambda>_ w.
            and_then (py_print (lit ''Commit hash: '' @ commit_hash) w) (\<lambda>_ w.
            (Inr PyNone, w)))))"

datatype store_error = ObjectNotFound

definition get :: "minigit \<Rightarrow> str \<Rightarrow> world \<Rightarrow> store_error + bytes" where
  \<comment> \<open>Modelled from the spec: the source has no operation that reads an object back. This
      is the \<open>get(id)\<close> of the spec's ObjectStore: the bytes of the file named \<open>id\<close> in the
      objects directory, \<open>ObjectNotFound\<close> when there is no such file.\<close>
  "get self ident w =
     (case files w (path_join (objects_dir self) ident) of
        None \<Rightarrow> Inl ObjectNotFound
      | Some b \<Rightarrow> Inr b)"

section \<open>The hasher\<close>

definition hexchar :: "nat \<Rightarrow> bool" where
  "hexchar c = ((48 \<le> c \<and> c \<le> 57) \<or> (97 \<le> c \<and> c \<le> 102))"

lemma hexchar_hexdigit: "d < 16 \<Longrightarrow> hexchar (hexdigit d)"
  by (simp add: hexchar_def hexdigit_def)

lemma nibble_less: "unat ((w :: u32) AND 15) < 16"
proof -
  have "unat (w AND 15) \<le> unat (15 :: u32)"
    by (rule word_and_le1 [THEN word_le_nat_alt [THEN iffD1]])
  then show ?thesis by simp
qed

lemma length_hex32: "length (hex32 w) = 8"
  by (simp add: hex32_def)

lemma hexchar_hex32: "list_all hexchar (hex32 w)"
  by (simp add: hex32_def list_all_iff hexchar_hexdigit nibble_less)

lemma length_sha1_hexdigest: "length (sha1_hexdigest m) = 40"
  by (simp add: length_hex32 split: prod.splits)

lemma hexchar_sha1_hexdigest: "list_all hexchar (sha1_hexdigest m)"
  by (simp add: hexchar_hex32 split: prod.splits)

declare sha1_hexdigest.simps [simp del]


section \<open>Statements run one after the other; writing and printing\<close>

lemma and_then_Inl [simp]: "and_then (Inl e, w) f = (Inl e, w)"
  by (simp add: and_then_def)

lemma and_then_Inr [simp]: "and_then (Inr x, w) f = f x w"
  by (simp add: and_then_def)

lemma py_print_ok: "list_all scalar s \<Longrightarrow> py_print s w = (Inr (), w\<lparr>out := out w @ [s]\<rparr>)"
  by (simp add: py_print_def utf8_encode_def)

lemma py_print_bad: "\<not> list_all scalar s \<Longrightarrow> py_print s w = (Inl UnicodeEncodeError, w)"
  by (simp add: py_print_def utf8_encode_def)

lemma py_print_files [simp]: "files (snd (py_print s w)) = files w"
  by (simp add: py_print_def split: sum.splits)

lemma py_print_dirs [simp]: "dirs (snd (py_print s w)) = dirs w"
  by (simp add: py_print_def split: sum.splits)

lemma scalar_lit [simp]: "list_all scalar (lit cs)"
proof -
  have "scalar (of_char c)" for c :: char
  proof -
    have "(of_char c :: nat) < 256" by simp
    then show ?thesis unfolding scalar_def by linarith
  qed
  then show ?thesis by (simp add: lit_def list_all_iff)
qed

lemma write_text_dirs [simp]: "dirs (snd (write_text p s w)) = dirs w"
  by (simp add: write_text_def split: sum.splits)

lemma write_text_out [simp]: "out (snd (write_text p s w)) = out w"
  by (simp add: write_text_def split: sum.splits)

lemma write_text_other: "q \<noteq> p \<Longrightarrow> files (snd (write_text p s w)) q = files w q"
  by (simp add: write_text_def split: sum.splits)

lemma write_text_ok:
  "p \<notin> dirs w \<Longrightarrow> parent_ok w p \<Longrightarrow> utf8_encode s = Inr b \<Longrightarrow>
   write_text p s w = (Inr (), w\<lparr>files := (files w)(p \<mapsto> b)\<rparr>)"
  by (simp add: write_text_def)

lemma cons_ok_Inr: "cons_ok x r = Inr s \<longleftrightarrow> (\<exists>xs. r = Inr xs \<and> s = x # xs)"
  by (auto simp: cons_ok_def split: sum.splits)

lemma cons_ok_Inl: "cons_ok x r = Inl e \<longleftrightarrow> r = Inl e"
  by (auto simp: cons_ok_def split: sum.splits)

lemma utf8_decode_error: "utf8_decode b = Inl e \<Longrightarrow> e = UnicodeDecodeError"
  by (induction b arbitrary: e rule: utf8_decode.induct)
     (auto simp: cons_ok_Inl split: option.splits)

lemma utf8_decode_scalar: "utf8_decode b = Inr s \<Longrightarrow> list_all scalar s"
proof (induction b arbitrary: s rule: utf8_decode.induct)
  case 1
  then show ?case by simp
next
  case (2 b bs)
  from "2.prems" obtain c r xs where
    f: "utf8_first (b # bs) = Some (c, r)" and d: "utf8_decode r = Inr xs" and s: "s = c # xs"
    by (auto simp: cons_ok_Inr split: option.splits)
  from "2.IH" [OF f refl d] have "list_all scalar xs" .
  with utf8_first_scalar [OF f] s show ?case by simp
qed

lemma universal_newlines_scalar: "list_all scalar s \<Longrightarrow> list_all scalar (universal_newlines s)"
  by (induction s rule: universal_newlines.induct) (auto simp: scalar_def)

lemma read_text_scalar: "read_text p w = Inr s \<Longrightarrow> list_all scalar s"
  by (auto simp: read_text_def split: sum.splits
        dest: utf8_decode_scalar intro: universal_newlines_scalar)

section \<open>Paths of the repository\<close>

lemma path_join_relative:
  "b \<noteq> [] \<Longrightarrow> hd b \<noteq> 47 \<Longrightarrow>
   path_join a b = (if a = [] \<or> last a = 47 then a else a @ [47]) @ b"
  by (simp add: path_join_def)

lemma hexchar_not_slash: "list_all hexchar h \<Longrightarrow> 47 \<notin> set h"
  by (auto simp: list_all_iff hexchar_def)

lemma dirname_join:
  assumes "a \<noteq> []" "last a \<noteq> 47" "b \<noteq> []" "47 \<notin> set b"
  shows "dirname (path_join a b) = a"
proof -
  from assms have hd: "hd b \<noteq> 47" by (cases b) auto
  have j: "path_join a b = a @ 47 # b"
    using assms hd by (simp add: path_join_relative)
  have "dropWhile (\<lambda>c. c \<noteq> 47) (rev b @ 47 # rev a) = 47 # rev a"
    using assms(4) by (induction b rule: rev_induct) auto
  then have head: "rev (dropWhile (\<lambda>c. c \<noteq> 47) (rev (a @ 47 # b))) = a @ [47]"
    by simp
  have "last a \<in> set a"
    using assms(1) by simp
  then have nall: "\<not> list_all (\<lambda>c. c = 47) (a @ [47])"
    using assms(2) by (auto simp: list_all_iff)
  have "rev a \<noteq> []" "hd (rev a) \<noteq> 47"
    using assms(1,2) by (simp_all add: hd_rev)
  then have "dropWhile (\<lambda>c. c = 47) (rev a) = rev a"
    by (cases "rev a") auto
  then have strip: "rstrip_slash (a @ [47]) = a"
    by (simp add: rstrip_slash_def)
  show ?thesis
    unfolding dirname_def j Let_def head using nall strip by simp
qed

lemma objects_dir_shape:
  "objects_dir (self_of rd) \<noteq> [] \<and> last (objects_dir (self_of rd)) \<noteq> 47"
  by (simp add: self_of_def path_join_relative lit_def)

lemma object_path_dirname:
  "list_all hexchar h \<Longrightarrow> h \<noteq> [] \<Longrightarrow>
   dirname (path_join (objects_dir (self_of rd)) h) = objects_dir (self_of rd)"
  using objects_dir_shape [of rd] by (simp add: dirname_join hexchar_not_slash)

lemma object_path_not_index:
  assumes "list_all hexchar h" "h \<noteq> []"
  shows "path_join (objects_dir (self_of rd)) h \<noteq> index_file (self_of rd)"
proof -
  have "47 \<notin> set h" by (rule hexchar_not_slash [OF assms(1)])
  with assms(2) have hd: "hd h \<noteq> 47" by (cases h) auto
  have "path_join (objects_dir (self_of rd)) h = objects_dir (self_of rd) @ 47 # h"
    using objects_dir_shape [of rd] assms(2) hd by (simp add: path_join_relative)
  then show ?thesis
    by (simp add: self_of_def path_join_relative lit_def)
qed


section \<open>Claims about the hasher\<close>

lemma hash_object_ok:
  "list_all scalar data \<Longrightarrow> hash_object data = Inr (sha1_hexdigest (concat (map utf8_char data)))"
  by (simp add: hash_object_def utf8_encode_def)

text \<open>
  C7 (as amended). \<open>_hash_object\<close> takes a text and hashes its UTF-8 encoding. For every
  text that UTF-8 can encode (no surrogate code point), the empty text included, it
  succeeds with a digest of 40 lower-case hexadecimal characters; the digest depends on
  the encoded bytes only, so byte-equal inputs give the identical digest.
\<close>

theorem hash_object_text:
  "(list_all scalar data \<longrightarrow>
      (\<exists>h. hash_object data = Inr h \<and> length h = 40 \<and> list_all hexchar h))
   \<and> (utf8_encode data = utf8_encode data' \<longrightarrow> hash_object data = hash_object data')
   \<and> hash_object [] = Inr (sha1_hexdigest [])"
  by (simp add: hash_object_def utf8_encode_def length_sha1_hexdigest hexchar_sha1_hexdigest
        del: sha1_hexdigest.simps)

theorem hash_object_text_witness:
  "list_all scalar (lit ''hello'')
   \<and> (\<exists>h. hash_object (lit ''hello'') = Inr h \<and> length h = 40 \<and> list_all hexchar h)"
  using hash_object_text [of "lit ''hello''" "lit ''hello''"] by simp

text \<open>
  The claim as stated, success for every input, fails for a text that holds a lone
  surrogate: \<open>'\ud800'.encode()\<close> raises.
\<close>

theorem hash_object_surrogate: "hash_object [0xD800] = Inl UnicodeEncodeError"
  by (simp add: hash_object_def utf8_encode_def scalar_def)

section \<open>The object store\<close>

definition store_ready :: "minigit \<Rightarrow> world \<Rightarrow> bool" where
  \<comment> \<open>the objects directory exists and holds no directory of its own\<close>
  "store_ready self w =
     (objects_dir self \<in> dirs w \<and> (\<forall>p\<in>dirs w. dirname p \<noteq> objects_dir self))"

definition same_at :: "str \<Rightarrow> world \<Rightarrow> world \<Rightarrow> bool" where
  \<comment> \<open>from \<open>w\<close> to \<open>w'\<close> the file at \<open>q\<close> and the directories are as they were\<close>
  "same_at q w w' = (files w' q = files w q \<and> dirs w' = dirs w)"

lemma same_at_refl [simp]: "same_at q w w"
  by (simp add: same_at_def)

lemma same_at_print: "same_at q w w1 \<Longrightarrow> same_at q w (snd (py_print s w1))"
  by (simp add: same_at_def)

lemma same_at_write: "q \<noteq> p \<Longrightarrow> same_at q w w1 \<Longrightarrow> same_at q w (snd (write_text p s w1))"
  by (simp add: same_at_def write_text_other)

lemma same_at_and_then:
  assumes "same_at q w (snd r)" "\<And>x w1. same_at q w w1 \<Longrightarrow> same_at q w (snd (f x w1))"
  shows "same_at q w (snd (and_then r f))"
proof (cases r)
  case (Pair res w1)
  with assms show ?thesis by (cases res) auto
qed

lemma same_at_return: "same_at q w w1 \<Longrightarrow> same_at q w (snd (Inr x, w1))"
  by simp

lemma object_path_writable:
  assumes "store_ready (self_of rd) w" "list_all hexchar h" "h \<noteq> []"
  shows "path_join (objects_dir (self_of rd)) h \<notin> dirs w"
    and "parent_ok w (path_join (objects_dir (self_of rd)) h)"
  using assms object_path_dirname [of h rd]
  by (auto simp: store_ready_def parent_ok_def)

lemma sha1_hexdigest_nonempty: "sha1_hexdigest m \<noteq> []"
  using length_sha1_hexdigest [of m] by (auto simp del: sha1_hexdigest.simps)

lemma hash_object_hex: "hash_object data = Inr h \<Longrightarrow> list_all hexchar h \<and> h \<noteq> []"
  using hexchar_sha1_hexdigest sha1_hexdigest_nonempty
  by (auto simp: hash_object_def simp del: sha1_hexdigest.simps split: sum.splits)

lemma put_ok:
  assumes "store_ready (self_of rd) w" "utf8_encode data = Inr b"
  shows "put (self_of rd) data w =
           (Inr (sha1_hexdigest b),
            w\<lparr>files := (files w)(path_join (objects_dir (self_of rd)) (sha1_hexdigest b) \<mapsto> b)\<rparr>)"
  using assms object_path_writable [OF assms(1) hexchar_sha1_hexdigest sha1_hexdigest_nonempty, of b]
  by (simp add: put_def hash_object_def write_text_ok del: sha1_hexdigest.simps)

lemma put_same_at:
  assumes "\<And>h. hash_object data = Inr h \<Longrightarrow> q \<noteq> path_join (objects_dir self) h"
    and "same_at q w w1"
  shows "same_at q w (snd (put self data w1))"
proof (cases "hash_object data")
  case (Inl e)
  with assms(2) show ?thesis by (simp add: put_def)
next
  case (Inr h)
  have "same_at q w (snd (and_then (write_text (path_join (objects_dir self) h) data w1)
                             (\<lambda>_ w. (Inr h, w))))"
    by (rule same_at_and_then) (simp_all add: same_at_write assms(1) [OF Inr] assms(2))
  with Inr show ?thesis by (simp add: put_def)
qed

lemma put_out [simp]: "out (snd (put self data w)) = out w"
  by (simp add: put_def and_then_def split: sum.splits prod.splits)
     (metis snd_conv write_text_out)

lemma put_index_same:
  "same_at (index_file (self_of rd)) w w1 \<Longrightarrow>
   same_at (index_file (self_of rd)) w (snd (put (self_of rd) data w1))"
  by (rule put_same_at) (use hash_object_hex object_path_not_index in metis)

lemma read_index_same: "same_at (index_file self) w w' \<Longrightarrow> read_index self w' = read_index self w"
  by (simp add: same_at_def read_index_def path_exists_def read_text_def read_bytes_def)

lemma stage_same_at:
  assumes "q \<noteq> index_file self" "same_at q w w1"
  shows "same_at q w (snd (stage self p h w1))"
  using assms
  by (auto simp: stage_def write_index_def same_at_write split: sum.splits)

lemma ascii_encode:
  "list_all (\<lambda>c. (of_char c :: nat) < 128) cs \<Longrightarrow> utf8_encode (lit cs) = Inr cs"
proof -
  assume a: "list_all (\<lambda>c. (of_char c :: nat) < 128) cs"
  then have "concat (map utf8_char (lit cs)) = cs"
    by (induction cs) (simp_all add: lit_def utf8_char_def)
  then show ?thesis
    using scalar_lit [of cs] by (simp add: utf8_encode_def)
qed

section \<open>Claims about the object store\<close>

text \<open>
  C5 (as amended). The store step has no existence check: it opens the object file for
  writing every time. Storing a text again, after a store of it that succeeded, gives
  the same ContentId and leaves the whole file system, so the number of objects and the
  bytes of each, as the first store left it; the object file then holds the encoded
  text whatever it held before.
\<close>

theorem put_again:
  assumes "put self data w = (Inr h, w1)"
  shows "put self data w1 = (Inr h, w1)
         \<and> (\<exists>b. utf8_encode data = Inr b \<and> files w1 (path_join (objects_dir self) h) = Some b)"
  using assms
  by (auto simp: put_def write_text_def and_then_def parent_ok_def hash_object_def
        split: sum.splits if_splits)

definition R0 :: str where
  "R0 = lit ''.minigit''"

definition hi_path :: str where
  \<comment> \<open>the object file of the text \<open>hi\<close>\<close>
  "hi_path = path_join (objects_dir (self_of R0)) (sha1_hexdigest ''hi'')"

definition W_stale :: world where
  \<comment> \<open>a repository whose object file of \<open>hi\<close> holds other bytes\<close>
  "W_stale = \<lparr>files = [hi_path \<mapsto> ''old''], dirs = {R0, objects_dir (self_of R0)}, out = []\<rparr>"

lemma store_ready_R0:
  "dirs w = {R0, objects_dir (self_of R0)} \<Longrightarrow> store_ready (self_of R0) w"
  by (simp add: store_ready_def R0_def self_of_def path_join_def lit_def dirname_def
        rstrip_slash_def)

theorem put_again_witness:
  "put (self_of R0) (lit ''hi'') W_stale
     = (Inr (sha1_hexdigest ''hi''), W_stale\<lparr>files := [hi_path \<mapsto> ''hi'']\<rparr>)
   \<and> put (self_of R0) (lit ''hi'') (W_stale\<lparr>files := [hi_path \<mapsto> ''hi'']\<rparr>)
     = (Inr (sha1_hexdigest ''hi''), W_stale\<lparr>files := [hi_path \<mapsto> ''hi'']\<rparr>)"
proof -
  have enc: "utf8_encode (lit ''hi'') = Inr ''hi''"
    by (rule ascii_encode) simp
  have "store_ready (self_of R0) W_stale"
    by (rule store_ready_R0) (simp add: W_stale_def)
  from put_ok [OF this enc]
  have 1: "put (self_of R0) (lit ''hi'') W_stale
             = (Inr (sha1_hexdigest ''hi''), W_stale\<lparr>files := [hi_path \<mapsto> ''hi'']\<rparr>)"
    by (simp add: W_stale_def hi_path_def del: sha1_hexdigest.simps)
  from put_again [OF 1] 1 show ?thesis by simp
qed

text \<open>
  The claim as stated, that the write is skipped when the object exists, fails: an
  object file that exists under the ContentId of \<open>hi\<close> is written again.
\<close>

theorem put_rewrites_existing:
  "files W_stale hi_path = Some ''old''
   \<and> fst (put (self_of R0) (lit ''hi'') W_stale) = Inr (sha1_hexdigest ''hi'')
   \<and> files (snd (put (self_of R0) (lit ''hi'') W_stale)) hi_path = Some ''hi''"
proof -
  have enc: "utf8_encode (lit ''hi'') = Inr ''hi''"
    by (rule ascii_encode) simp
  have "store_ready (self_of R0) W_stale"
    by (rule store_ready_R0) (simp add: W_stale_def)
  from put_ok [OF this enc] show ?thesis
    by (simp add: W_stale_def hi_path_def del: sha1_hexdigest.simps)
qed

section \<open>Claims about add and commit that need no index content\<close>

definition missing_report :: "str \<Rightarrow> str" where
  \<comment> \<open>\<open>f"File {file_path} does not exist."\<close>\<close>
  "missing_report file_path = lit ''File '' @ file_path @ lit '' does not exist.''"

text \<open>
  C2 (as amended). For a path that does not exist, \<open>add\<close> writes nothing: files and
  directories, so the object store and the index, are as before. It reports by printing
  \<open>File <path> does not exist.\<close> and returns \<open>None\<close>, the value a successful \<open>add\<close>
  returns too; when the path cannot be printed the \<open>print\<close> raises.
\<close>

lemma add_missing:
  assumes "\<not> path_exists w file_path"
  shows "files (snd (add self file_path w)) = files w"
    and "dirs (snd (add self file_path w)) = dirs w"
    and "read_index self (snd (add self file_path w)) = read_index self w"
    and "list_all scalar file_path \<Longrightarrow>
           add self file_path w = (Inr PyNone, w\<lparr>out := out w @ [missing_report file_path]\<rparr>)"
    and "\<not> list_all scalar file_path \<Longrightarrow> add self file_path w = (Inl UnicodeEncodeError, w)"
proof -
  have a: "add self file_path w =
             and_then (py_print (missing_report file_path) w) (\<lambda>_ w. (Inr PyNone, w))"
    using assms by (simp add: add_def missing_report_def)
  have s: "list_all scalar (missing_report file_path) = list_all scalar file_path"
    by (simp add: missing_report_def)
  show "list_all scalar file_path \<Longrightarrow>
          add self file_path w = (Inr PyNone, w\<lparr>out := out w @ [missing_report file_path]\<rparr>)"
    by (simp add: a py_print_ok s)
  show "\<not> list_all scalar file_path \<Longrightarrow> add self file_path w = (Inl UnicodeEncodeError, w)"
    by (simp add: a py_print_bad s)
  have "same_at (index_file self) w (snd (add self file_path w))"
    unfolding a by (intro same_at_and_then same_at_print) simp_all
  then show "read_index self (snd (add self file_path w)) = read_index self w"
    by (rule read_index_same)
  show "files (snd (add self file_path w)) = files w"
    by (cases "list_all scalar file_path") (simp_all add: a py_print_ok py_print_bad s)
  show "dirs (snd (add self file_path w)) = dirs w"
    by (cases "list_all scalar file_path") (simp_all add: a py_print_ok py_print_bad s)
qed

theorem add_missing_file:
  assumes "\<not> path_exists w file_path"
  shows "files (snd (add self file_path w)) = files w
         \<and> dirs (snd (add self file_path w)) = dirs w
         \<and> read_index self (snd (add self file_path w)) = read_index self w
         \<and> add self file_path w =
             (if list_all scalar file_path
              then (Inr PyNone, w\<lparr>out := out w @ [missing_report file_path]\<rparr>)
              else (Inl UnicodeEncodeError, w))"
  using add_missing [OF assms, of self] by simp

definition W_empty :: world where
  \<comment> \<open>a repository directory with an objects directory and nothing else\<close>
  "W_empty = \<lparr>files = Map.empty, dirs = {R0, objects_dir (self_of R0)}, out = []\<rparr>"

theorem add_missing_file_witness:
  "\<not> path_exists W_empty (lit ''does-not-exist.txt'')
   \<and> add (self_of R0) (lit ''does-not-exist.txt'') W_empty
       = (Inr PyNone, W_empty\<lparr>out := [missing_report (lit ''does-not-exist.txt'')]\<rparr>)"
proof -
  have n: "\<not> path_exists W_empty (lit ''does-not-exist.txt'')"
    by (simp add: path_exists_def W_empty_def R0_def self_of_def path_join_def lit_def)
  from add_missing_file [OF n, of "self_of R0"] n show ?thesis
    by (simp add: W_empty_def)
qed

text \<open>
  The claim as stated, that \<open>add\<close> returns the error value FileNotFound, fails: the
  method returns \<open>None\<close>.
\<close>

theorem add_missing_returns_none:
  "fst (add (self_of R0) (lit ''does-not-exist.txt'') W_empty) = Inr PyNone
   \<and> fst (add (self_of R0) (lit ''does-not-exist.txt'') W_empty) \<noteq> Inl FileNotFoundError"
  by (simp add: add_def path_exists_def W_empty_def R0_def self_of_def path_join_def
        py_print_ok) (simp add: lit_def)

lemma commit_index_same:
  "same_at (index_file (self_of rd)) w (snd (commit (self_of rd) message w))"
  by (auto simp: commit_def split: sum.splits
        intro!: same_at_and_then same_at_print put_index_same)

text \<open>
  C9. \<open>commit\<close> leaves the index as it was, in every state and for every message: the
  index file keeps its bytes, and reading the index gives what it gave before.
\<close>

theorem commit_keeps_index:
  "files (snd (commit (self_of rd) message w)) (index_file (self_of rd))
     = files w (index_file (self_of rd))
   \<and> read_index (self_of rd) (snd (commit (self_of rd) message w)) = read_index (self_of rd) w"
  using commit_index_same [of rd w message]
  by (simp add: read_index_same) (simp add: same_at_def)

lemma add_object:
  assumes "path_exists w p" "read_text p w = Inr content" "store_ready (self_of rd) w"
  shows "\<exists>b. utf8_encode content = Inr b
           \<and> hash_object content = Inr (sha1_hexdigest b)
           \<and> files (snd (add (self_of rd) p w))
                (path_join (objects_dir (self_of rd)) (sha1_hexdigest b)) = Some b"
proof -
  from read_text_scalar [OF assms(2)] obtain b where b: "utf8_encode content = Inr b"
    by (auto simp: utf8_encode_def)
  let ?q = "path_join (objects_dir (self_of rd)) (sha1_hexdigest b)"
  let ?w1 = "w\<lparr>files := (files w)(?q \<mapsto> b)\<rparr>"
  have q: "?q \<noteq> index_file (self_of rd)"
    by (rule object_path_not_index [OF hexchar_sha1_hexdigest sha1_hexdigest_nonempty])
  have "same_at ?q ?w1 (snd (and_then (stage (self_of rd) p (sha1_hexdigest b) ?w1) (\<lambda>_ w.
          and_then (py_print (lit ''Added file '' @ p @ lit '' to the index.'') w)
            (\<lambda>_ w. (Inr PyNone, w)))))"
    by (intro same_at_and_then same_at_print stage_same_at q) simp_all
  then have "files (snd (add (self_of rd) p w)) ?q = files ?w1 ?q"
    using assms(1,2) put_ok [OF assms(3) b]
    by (simp add: add_def same_at_def del: sha1_hexdigest.simps)
  with b show ?thesis
    by (auto simp: hash_object_def simp del: sha1_hexdigest.simps)
qed

text \<open>
  C10. \<open>add\<close> works on the file's content decoded as text. When the bytes of the file
  do not decode, \<open>add\<close> raises the decoding error and changes nothing. When they decode,
  the text that is hashed and stored is the decoded text with its newlines translated,
  and the stored blob is the UTF-8 encoding of that text, under the digest of that
  encoding.
\<close>

theorem add_decodes_text:
  assumes "path_exists w p" "read_bytes p w = Inr raw" "store_ready (self_of rd) w"
  shows "case utf8_decode raw of
           Inl e \<Rightarrow> add (self_of rd) p w = (Inl UnicodeDecodeError, w)
         | Inr s \<Rightarrow>
             (\<exists>b. utf8_encode (universal_newlines s) = Inr b
                \<and> hash_object (universal_newlines s) = Inr (sha1_hexdigest b)
                \<and> files (snd (add (self_of rd) p w))
                     (path_join (objects_dir (self_of rd)) (sha1_hexdigest b)) = Some b)"
proof (cases "utf8_decode raw")
  case (Inl e)
  then have "read_text p w = Inl UnicodeDecodeError"
    using assms(2) utf8_decode_error [OF Inl] by (simp add: read_text_def)
  with assms(1) Inl show ?thesis by (simp add: add_def)
next
  case (Inr s)
  then have "read_text p w = Inr (universal_newlines s)"
    using assms(2) by (simp add: read_text_def)
  from add_object [OF assms(1) this assms(3)] Inr show ?thesis by simp
qed


definition W_bin :: world where
  \<comment> \<open>a file that is not UTF-8, beside an empty repository\<close>
  "W_bin = \<lparr>files = [lit ''bin.dat'' \<mapsto> [CHR 0xFF]], dirs = {R0, objects_dir (self_of R0)},
            out = []\<rparr>"

theorem add_decodes_text_witness:
  "path_exists W_bin (lit ''bin.dat'') \<and> read_bytes (lit ''bin.dat'') W_bin = Inr [CHR 0xFF]
   \<and> store_ready (self_of R0) W_bin
   \<and> add (self_of R0) (lit ''bin.dat'') W_bin = (Inl UnicodeDecodeError, W_bin)"
proof -
  have e: "path_exists W_bin (lit ''bin.dat'')"
    by (simp add: path_exists_def W_bin_def)
  have r: "read_bytes (lit ''bin.dat'') W_bin = Inr [CHR 0xFF]"
    by (simp add: read_bytes_def W_bin_def R0_def self_of_def path_join_def lit_def)
  have s: "store_ready (self_of R0) W_bin"
    by (rule store_ready_R0) (simp add: W_bin_def)
  have d: "utf8_decode [CHR 0xFF] = Inl UnicodeDecodeError"
    by (simp add: utf8_first_def)
  from add_decodes_text [OF e r s] d e r s show ?thesis by simp
qed

section \<open>Round trip through the store\<close>

definition crlf_raw :: bytes where
  "crlf_raw = [CHR ''a'', CHR 0x0D, CHR 0x0A, CHR ''b'']"

definition crlf_stored :: bytes where
  "crlf_stored = [CHR ''a'', CHR 0x0A, CHR ''b'']"

definition W_crlf :: world where
  \<comment> \<open>a file with a Windows line end, beside an empty repository\<close>
  "W_crlf = \<lparr>files = [lit ''a.txt'' \<mapsto> crlf_raw], dirs = {R0, objects_dir (self_of R0)},
             out = []\<rparr>"

text \<open>
  C3 (as amended). The store step takes a text: once it has stored a text, the object
  file named by the ContentId holds exactly the UTF-8 encoding of that text, and
  \<open>get\<close> of that ContentId returns these bytes. \<open>get\<close> of an identifier that names no
  object file fails with ObjectNotFound.
\<close>

theorem get_put:
  "(put self data w = (Inr h, w1) \<longrightarrow>
      (\<exists>b. utf8_encode data = Inr b \<and> h = sha1_hexdigest b \<and> get self h w1 = Inr b))
   \<and> (files w (path_join (objects_dir self) ident) = None \<longrightarrow>
        get self ident w = Inl ObjectNotFound)"
  by (auto simp: put_def write_text_def and_then_def hash_object_def get_def
        simp del: sha1_hexdigest.simps split: sum.splits if_splits)

theorem get_put_witness:
  "put (self_of R0) (lit ''hi'') W_empty
     = (Inr (sha1_hexdigest ''hi''), W_empty\<lparr>files := [hi_path \<mapsto> ''hi'']\<rparr>)
   \<and> get (self_of R0) (sha1_hexdigest ''hi'') (W_empty\<lparr>files := [hi_path \<mapsto> ''hi'']\<rparr>) = Inr ''hi''
   \<and> files W_empty (path_join (objects_dir (self_of R0)) (sha1_hexdigest ''hi'')) = None
   \<and> get (self_of R0) (sha1_hexdigest ''hi'') W_empty = Inl ObjectNotFound"
proof -
  have enc: "utf8_encode (lit ''hi'') = Inr ''hi''"
    by (rule ascii_encode) simp
  have "store_ready (self_of R0) W_empty"
    by (rule store_ready_R0) (simp add: W_empty_def)
  from put_ok [OF this enc]
  have 1: "put (self_of R0) (lit ''hi'') W_empty
             = (Inr (sha1_hexdigest ''hi''), W_empty\<lparr>files := [hi_path \<mapsto> ''hi'']\<rparr>)"
    by (simp add: W_empty_def hi_path_def del: sha1_hexdigest.simps)
  have 2: "files W_empty (path_join (objects_dir (self_of R0)) (sha1_hexdigest ''hi'')) = None"
    by (simp add: W_empty_def)
  from get_put [of "self_of R0" "lit ''hi''" W_empty "sha1_hexdigest ''hi''"
      "W_empty\<lparr>files := [hi_path \<mapsto> ''hi'']\<rparr>" "sha1_hexdigest ''hi''"] 1 2 enc
  show ?thesis by (simp del: sha1_hexdigest.simps)
qed

text \<open>
  The claim as stated, a round trip for every byte sequence, fails for the bytes of a
  file: \<open>add\<close> stores the text it decoded, with CR LF read as LF, so the object that
  \<open>get\<close> returns differs from the bytes of the file.
\<close>

theorem add_changes_bytes:
  "read_bytes (lit ''a.txt'') W_crlf = Inr crlf_raw
   \<and> get (self_of R0) (sha1_hexdigest crlf_stored) (snd (add (self_of R0) (lit ''a.txt'') W_crlf))
       = Inr crlf_stored
   \<and> crlf_stored \<noteq> crlf_raw"
proof -
  have e: "path_exists W_crlf (lit ''a.txt'')"
    by (simp add: path_exists_def W_crlf_def)
  have r: "read_bytes (lit ''a.txt'') W_crlf = Inr crlf_raw"
    by (simp add: read_bytes_def W_crlf_def R0_def self_of_def path_join_def lit_def)
  have d: "utf8_decode crlf_raw = Inr [97, 13, 10, 98]"
    by (simp add: crlf_raw_def utf8_first_def cons_ok_def)
  have n: "lit crlf_stored = [97, 10, 98]"
    by (simp add: lit_def crlf_stored_def)
  have t: "read_text (lit ''a.txt'') W_crlf = Inr (lit crlf_stored)"
    by (simp add: read_text_def r d n)
  have enc: "utf8_encode (lit crlf_stored) = Inr crlf_stored"
    by (rule ascii_encode) (simp add: crlf_stored_def)
  have s: "store_ready (self_of R0) W_crlf"
    by (rule store_ready_R0) (simp add: W_crlf_def)
  from add_object [OF e t s] enc r show ?thesis
    by (auto simp: get_def crlf_stored_def crlf_raw_def simp del: sha1_hexdigest.simps)
qed

section \<open>Reading back what json.dumps wrote\<close>

lemma hexval_hexdigit: "d < 16 \<Longrightarrow> hexval (hexdigit d) = Some d"
  by (simp add: hexval_def hexdigit_def)

lemma hex_digits_sum:
  fixes n :: nat
  shows "(n div 4096) * 4096 + (n div 256 mod 16) * 256 + (n div 16 mod 16) * 16 + n mod 16 = n"
proof -
  have a: "n div 16 * 16 + n mod 16 = n" by simp
  have "n div 16 div 16 * 16 + n div 16 mod 16 = n div 16" by simp
  then have b: "n div 256 * 16 + n div 16 mod 16 = n div 16"
    by (simp add: div_mult2_eq [symmetric])
  have "n div 256 div 16 * 16 + n div 256 mod 16 = n div 256" by simp
  then have c: "n div 4096 * 16 + n div 256 mod 16 = n div 256"
    by (simp add: div_mult2_eq [symmetric])
  from a b c show ?thesis by linarith
qed

lemma unhex4_hex4: "n < 65536 \<Longrightarrow> unhex4 (hex4 n) = Some n"
proof -
  assume n: "n < 65536"
  have d: "n div 4096 mod 16 = n div 4096" using n by simp
  have "n div 4096 < 16" using n by simp
  then have h3: "hexval (hexdigit (n div 4096)) = Some (n div 4096)"
    by (rule hexval_hexdigit)
  have h2: "hexval (hexdigit (n div 256 mod 16)) = Some (n div 256 mod 16)"
    by (rule hexval_hexdigit) simp
  have h1: "hexval (hexdigit (n div 16 mod 16)) = Some (n div 16 mod 16)"
    by (rule hexval_hexdigit) simp
  have h0: "hexval (hexdigit (n mod 16)) = Some (n mod 16)"
    by (rule hexval_hexdigit) simp
  show ?thesis
    by (simp add: unhex4_def hex4_def d h0 h1 h2 h3 hex_digits_sum)
qed


lemma length_hex4 [simp]: "length (hex4 n) = 4"
  by (simp add: hex4_def)

lemma scan_escape_plain:
  assumes "32 \<le> c" "c \<le> 126" "c \<noteq> 34" "c \<noteq> 92"
  shows "scan_string (json_escape c @ r) = cons_fst c (scan_string r)"
proof -
  have e: "json_escape c = [c]"
    using assms by (simp add: json_escape_def)
  show ?thesis
    unfolding e using assms by (simp del: scan_string.simps add: scan_string.simps(2) [of c])
qed

lemma scan_backslash:
  "unescape e = Some x \<Longrightarrow> e \<noteq> 117 \<Longrightarrow> scan_string (92 # e # r) = cons_fst x (scan_string r)"
  by (subst scan_string.simps(2)) (simp del: scan_string.simps)

lemma scan_escape_short:
  assumes "c = 34 \<or> c = 92 \<or> c = 8 \<or> c = 12 \<or> c = 10 \<or> c = 13 \<or> c = 9"
  shows "scan_string (json_escape c @ r) = cons_fst c (scan_string r)"
proof -
  obtain e where e: "json_escape c = [92, e]" "unescape e = Some c" "e \<noteq> 117"
    using assms by (auto simp: json_escape_def unescape_def)
  show ?thesis
    unfolding e(1) using scan_backslash [OF e(2,3)] by simp
qed

lemma scan_u_single:
  assumes "u < 65536" "\<not> (0xD800 \<le> u \<and> u \<le> 0xDBFF)"
  shows "scan_string (92 # 117 # hex4 u @ r) = cons_fst u (scan_string r)"
  apply (subst scan_string.simps(2))
  using assms(2) apply (auto simp del: scan_string.simps simp add: unhex4_hex4 [OF assms(1)])
  done

lemma scan_u_pair:
  assumes "0xD800 \<le> hi" "hi \<le> 0xDBFF" "0xDC00 \<le> lo" "lo \<le> 0xDFFF"
  shows "scan_string (92 # 117 # hex4 hi @ 92 # 117 # hex4 lo @ r)
           = cons_fst (0x10000 + (hi - 0xD800) * 1024 + (lo - 0xDC00)) (scan_string r)"
proof -
  have h: "hi < 65536" and l: "lo < 65536" using assms by simp_all
  show ?thesis
    apply (subst scan_string.simps(2))
    using assms apply (simp del: scan_string.simps add: unhex4_hex4 [OF h] unhex4_hex4 [OF l])
    done
qed


lemma scan_escape_u:
  assumes "c < 0x10000" "scalar c" "c < 32 \<or> 126 < c" "c \<noteq> 8" "c \<noteq> 12" "c \<noteq> 10" "c \<noteq> 13" "c \<noteq> 9"
  shows "scan_string (json_escape c @ r) = cons_fst c (scan_string r)"
proof -
  have e: "json_escape c = 92 # 117 # hex4 c"
    using assms by (auto simp: json_escape_def)
  have s: "\<not> (0xD800 \<le> c \<and> c \<le> 0xDBFF)"
    using assms(2) by (auto simp: scalar_def)
  show ?thesis
    unfolding e using scan_u_single [OF assms(1) s] by simp
qed

lemma scan_escape_pair:
  assumes "0x10000 \<le> c" "c < 0x110000"
  shows "scan_string (json_escape c @ r) = cons_fst c (scan_string r)"
proof -
  define n where "n = c - 0x10000"
  define hi where "hi = 0xD800 + n div 1024 mod 1024"
  define lo where "lo = 0xDC00 + n mod 1024"
  have n: "n < 1048576" using assms by (simp add: n_def)
  have e: "json_escape c = 92 # 117 # hex4 hi @ 92 # 117 # hex4 lo"
    using assms by (simp add: json_escape_def hi_def lo_def n_def)
  have "n div 1024 mod 1024 < 1024" "n mod 1024 < 1024"
    by simp_all
  then have hi: "0xD800 \<le> hi" "hi \<le> 0xDBFF" and lo: "0xDC00 \<le> lo" "lo \<le> 0xDFFF"
    unfolding hi_def lo_def by linarith+
  have "n div 1024 mod 1024 = n div 1024"
    using n by simp
  then have "(hi - 0xD800) * 1024 + (lo - 0xDC00) = n"
    by (simp add: hi_def lo_def)
  then have c: "0x10000 + (hi - 0xD800) * 1024 + (lo - 0xDC00) = c"
    using assms by (simp add: n_def)
  show ?thesis
    unfolding e using scan_u_pair [OF hi lo, of r] by (simp only: c append_Cons append_assoc)
qed

lemma scan_escape: "scalar c \<Longrightarrow> scan_string (json_escape c @ r) = cons_fst c (scan_string r)"
proof -
  assume s: "scalar c"
  consider "c = 34 \<or> c = 92 \<or> c = 8 \<or> c = 12 \<or> c = 10 \<or> c = 13 \<or> c = 9"
    | "32 \<le> c" "c \<le> 126" "c \<noteq> 34" "c \<noteq> 92"
    | "c < 0x10000" "c < 32 \<or> 126 < c" "c \<noteq> 8" "c \<noteq> 12" "c \<noteq> 10" "c \<noteq> 13" "c \<noteq> 9"
    | "0x10000 \<le> c"
    by linarith
  then show ?thesis
  proof cases
    case 1
    then show ?thesis by (rule scan_escape_short)
  next
    case 2
    then show ?thesis by (rule scan_escape_plain)
  next
    case 3
    then show ?thesis using s by (intro scan_escape_u) auto
  next
    case 4
    then show ?thesis using s by (intro scan_escape_pair) (auto simp: scalar_def)
  qed
qed

lemma scan_string_escaped:
  "list_all scalar s \<Longrightarrow> scan_string (concat (map json_escape s) @ 34 # r) = Some (s, r)"
proof (induction s)
  case Nil
  show ?case by (simp del: scan_string.simps add: scan_string.simps(2) [of 34])
next
  case (Cons c s)
  then show ?case by (simp del: scan_string.simps add: scan_escape cons_fst_def)
qed

lemma parse_json_string:
  "list_all scalar s \<Longrightarrow> parse_value (json_string s @ r) = Some (JStr s, r)"
  by (simp del: scan_string.simps add: json_string_def scan_string_escaped)

declare parse_value.simps [simp del] parse_members.simps [simp del]

fun json_ok :: "json \<Rightarrow> bool" where
  \<comment> \<open>a document that \<open>json.loads\<close> gives back as it was dumped: the keys of each object are
      distinct, as in a \<open>dict\<close>, and no string holds a surrogate\<close>
  "json_ok (JStr s) = list_all scalar s"
| "json_ok (JObj kvs) =
     (distinct (map fst kvs) \<and> list_all (\<lambda>kv. list_all scalar (fst kv) \<and> json_ok (snd kv)) kvs)"

definition is_ws :: "nat \<Rightarrow> bool" where
  "is_ws c = (c = 32 \<or> c = 9 \<or> c = 10 \<or> c = 13)"

definition item :: "nat option \<Rightarrow> nat \<Rightarrow> str \<times> json \<Rightarrow> str" where
  \<comment> \<open>one member of a dumped object, behind the opening quote of its key\<close>
  "item ind lvl kv =
     concat (map json_escape (fst kv)) @ 34 # 58 # 32 # json_dumps ind (Suc lvl) (snd kv)"

definition sep_ws :: "nat option \<Rightarrow> nat \<Rightarrow> str" where
  "sep_ws ind lvl = (case ind of None \<Rightarrow> [32] | Some k \<Rightarrow> 10 # replicate (k * Suc lvl) 32)"

definition open_ws :: "nat option \<Rightarrow> nat \<Rightarrow> str" where
  "open_ws ind lvl = (case ind of None \<Rightarrow> [] | Some k \<Rightarrow> 10 # replicate (k * Suc lvl) 32)"

definition close_ws :: "nat option \<Rightarrow> nat \<Rightarrow> str" where
  "close_ws ind lvl = (case ind of None \<Rightarrow> [] | Some k \<Rightarrow> 10 # replicate (k * lvl) 32)"

fun members :: "nat option \<Rightarrow> nat \<Rightarrow> (str \<times> json) list \<Rightarrow> str" where
  \<comment> \<open>the members of a dumped object behind the opening quote of the first key\<close>
  "members ind lvl [] = []"
| "members ind lvl [kv] = item ind lvl kv"
| "members ind lvl (kv # kv' # kvs) =
     item ind lvl kv @ 44 # sep_ws ind lvl @ 34 # members ind lvl (kv' # kvs)"

lemma ws_lists [simp]:
  "list_all is_ws (sep_ws ind lvl)" "list_all is_ws (open_ws ind lvl)"
  "list_all is_ws (close_ws ind lvl)"
  by (auto simp: sep_ws_def open_ws_def close_ws_def is_ws_def list_all_iff split: option.splits)

lemma skip_ws_append: "list_all is_ws ws \<Longrightarrow> \<not> is_ws c \<Longrightarrow> skip_ws (ws @ c # r) = c # r"
  by (induction ws) (auto simp: skip_ws_def is_ws_def)

lemma skip_ws_Cons: "\<not> is_ws c \<Longrightarrow> skip_ws (c # r) = c # r"
  by (auto simp: skip_ws_def is_ws_def)

lemma join_items:
  "kvs \<noteq> [] \<Longrightarrow>
   join_with (44 # sep_ws ind lvl)
     (map (\<lambda>kv. json_string (fst kv) @ [58, 32] @ json_dumps ind (Suc lvl) (snd kv)) kvs)
     = 34 # members ind lvl kvs"
  by (induction kvs rule: members.induct [of _ ind lvl])
     (simp_all add: json_string_def item_def)

lemma json_dumps_object:
  "kvs \<noteq> [] \<Longrightarrow>
   json_dumps ind lvl (JObj kvs)
     = 123 # open_ws ind lvl @ 34 # members ind lvl kvs @ close_ws ind lvl @ [125]"
  using join_items [of kvs ind lvl]
  by (cases ind) (simp_all add: sep_ws_def open_ws_def close_ws_def)

lemma json_dumps_first: "\<exists>c t. json_dumps ind lvl v = c # t \<and> \<not> is_ws c"
proof (cases v)
  case (JStr s)
  then show ?thesis by (simp add: json_string_def is_ws_def)
next
  case (JObj kvs)
  show ?thesis
  proof (cases "kvs = []")
    case True
    with JObj show ?thesis by (simp add: is_ws_def)
  next
    case False
    with JObj show ?thesis
      by (simp add: json_dumps_object is_ws_def del: json_dumps.simps)
  qed
qed

definition upd_all :: "(str \<times> json) list \<Rightarrow> (str \<times> json) list \<Rightarrow> (str \<times> json) list" where
  "upd_all acc kvs = foldl (\<lambda>a kv. AList.update (fst kv) (snd kv) a) acc kvs"

lemma update_new: "k \<notin> fst ` set acc \<Longrightarrow> AList.update k v acc = acc @ [(k, v)]"
  by (induction acc) auto

lemma upd_all_distinct: "distinct (map fst (acc @ kvs)) \<Longrightarrow> upd_all acc kvs = acc @ kvs"
proof (induction kvs arbitrary: acc)
  case Nil
  then show ?case by (simp add: upd_all_def)
next
  case (Cons kv kvs)
  have "AList.update (fst kv) (snd kv) acc = acc @ [kv]"
    using Cons.prems by (simp add: update_new)
  moreover have "upd_all (acc @ [kv]) kvs = (acc @ [kv]) @ kvs"
    using Cons.prems by (intro Cons.IH) simp
  ultimately show ?case by (simp add: upd_all_def)
qed


lemma parse_members_dumped:
  assumes ne: "kvs \<noteq> []"
    and vals: "\<And>kv r. kv \<in> set kvs \<Longrightarrow>
                   parse_value (json_dumps ind (Suc lvl) (snd kv) @ r) = Some (snd kv, r)"
    and keys: "\<And>kv. kv \<in> set kvs \<Longrightarrow> list_all scalar (fst kv)"
  shows "parse_members acc (members ind lvl kvs @ close_ws ind lvl @ 125 # r)
           = Some (JObj (upd_all acc kvs), r)"
  using assms
proof (induction kvs arbitrary: acc rule: list_nonempty_induct)
  case (single kv)
  obtain c t where first: "json_dumps ind (Suc lvl) (snd kv) = c # t" "\<not> is_ws c"
    using json_dumps_first by blast
  let ?X = "close_ws ind lvl @ 125 # r"
  have "list_all scalar (fst kv)"
    by (rule single.prems(2)) simp
  from scan_string_escaped [OF this]
  have k: "scan_string (item ind lvl kv @ ?X)
             = Some (fst kv, 58 # 32 # json_dumps ind (Suc lvl) (snd kv) @ ?X)"
    by (simp add: item_def del: scan_string.simps json_dumps.simps)
  have s1: "skip_ws (32 # json_dumps ind (Suc lvl) (snd kv) @ ?X)
              = json_dumps ind (Suc lvl) (snd kv) @ ?X"
    using skip_ws_append [of "[32]" c "t @ ?X"] first by (simp add: is_ws_def)
  have v: "parse_value (json_dumps ind (Suc lvl) (snd kv) @ ?X) = Some (snd kv, ?X)"
    by (rule single.prems(1)) simp
  have s2: "skip_ws ?X = 125 # r"
    by (rule skip_ws_append) (simp_all add: is_ws_def)
  show ?case
    apply (subst parse_members.simps)
    apply (simp only: members.simps k option.case prod.case)
    apply (simp add: skip_ws_Cons is_ws_def s1 v s2 upd_all_def
             del: scan_string.simps json_dumps.simps)
    done
next
  case (cons kv kvs)
  obtain kv' kvs' where kvs: "kvs = kv' # kvs'"
    using cons.hyps by (cases kvs) auto
  obtain c t where first: "json_dumps ind (Suc lvl) (snd kv) = c # t" "\<not> is_ws c"
    using json_dumps_first by blast
  let ?M = "members ind lvl kvs @ close_ws ind lvl @ 125 # r"
  let ?X = "44 # sep_ws ind lvl @ 34 # ?M"
  have "list_all scalar (fst kv)"
    by (rule cons.prems(2)) simp
  from scan_string_escaped [OF this]
  have k: "scan_string (item ind lvl kv @ ?X)
             = Some (fst kv, 58 # 32 # json_dumps ind (Suc lvl) (snd kv) @ ?X)"
    by (simp add: item_def del: scan_string.simps json_dumps.simps)
  have s1: "skip_ws (32 # json_dumps ind (Suc lvl) (snd kv) @ ?X)
              = json_dumps ind (Suc lvl) (snd kv) @ ?X"
    using skip_ws_append [of "[32]" c "t @ ?X"] first by (simp add: is_ws_def)
  have v: "parse_value (json_dumps ind (Suc lvl) (snd kv) @ ?X) = Some (snd kv, ?X)"
    by (rule cons.prems(1)) simp
  have s2: "skip_ws (sep_ws ind lvl @ 34 # ?M) = 34 # ?M"
    by (rule skip_ws_append) (simp_all add: is_ws_def)
  have len: "length ?M < length (item ind lvl kv @ ?X)"
    by simp
  have ih: "parse_members (AList.update (fst kv) (snd kv) acc) ?M
              = Some (JObj (upd_all (AList.update (fst kv) (snd kv) acc) kvs), r)"
    by (rule cons.IH) (simp_all add: cons.prems del: json_dumps.simps)
  have e: "members ind lvl (kv # kvs) @ close_ws ind lvl @ 125 # r = item ind lvl kv @ ?X"
    by (simp add: kvs)
  show ?case
    apply (subst parse_members.simps)
    apply (simp only: e k option.case prod.case)
    apply (simp add: skip_ws_Cons is_ws_def s1 v s2 len ih upd_all_def
             del: scan_string.simps json_dumps.simps members.simps)
    done
qed

lemma upd_all_Nil: "distinct (map fst kvs) \<Longrightarrow> upd_all [] kvs = kvs"
  using upd_all_distinct [of "[]" kvs] by simp

lemma parse_dumped: "json_ok v \<Longrightarrow> parse_value (json_dumps ind lvl v @ r) = Some (v, r)"
proof (induction v arbitrary: lvl r)
  case (JStr s)
  then show ?case by (simp add: parse_json_string)
next
  case (JObj kvs)
  show ?case
  proof (cases "kvs = []")
    case True
    then show ?thesis
      by (simp add: parse_value.simps skip_ws_Cons is_ws_def)
  next
    case False
    have vals: "parse_value (json_dumps ind (Suc lvl) (snd kv) @ r') = Some (snd kv, r')"
      if "kv \<in> set kvs" for kv r'
    proof (rule JObj.IH [OF that])
      show "snd kv \<in> Basic_BNFs.snds kv"
        by (cases kv) simp
      show "json_ok (snd kv)"
        using JObj.prems that by (simp add: list_all_iff)
    qed
    have keys: "list_all scalar (fst kv)" if "kv \<in> set kvs" for kv
      using JObj.prems that by (simp add: list_all_iff)
    have m: "parse_members [] (members ind lvl kvs @ close_ws ind lvl @ 125 # r)
               = Some (JObj (upd_all [] kvs), r)"
      by (rule parse_members_dumped [OF False vals keys])
    have u: "upd_all [] kvs = kvs"
      using JObj.prems by (simp add: upd_all_Nil)
    have s: "skip_ws (open_ws ind lvl @ 34 # members ind lvl kvs @ close_ws ind lvl @ 125 # r)
               = 34 # members ind lvl kvs @ close_ws ind lvl @ 125 # r"
      by (rule skip_ws_append) (simp_all add: is_ws_def)
    show ?thesis
      unfolding json_dumps_object [OF False]
      apply (subst parse_value.simps)
      apply (simp add: s m u del: json_dumps.simps)
      done
  qed
qed

lemma json_loads_dumps: "json_ok v \<Longrightarrow> json_loads (json_dumps ind lvl v) = Inr v"
proof -
  assume ok: "json_ok v"
  obtain c t where first: "json_dumps ind lvl v = c # t" "\<not> is_ws c"
    using json_dumps_first by blast
  then have "skip_ws (json_dumps ind lvl v) = json_dumps ind lvl v"
    by (simp add: skip_ws_Cons del: json_dumps.simps)
  moreover have "parse_value (json_dumps ind lvl v) = Some (v, [])"
    using parse_dumped [OF ok, of ind lvl "[]"] by (simp del: json_dumps.simps)
  ultimately show ?thesis
    by (simp add: json_loads_def skip_ws_def del: json_dumps.simps)
qed

definition text_char :: "nat \<Rightarrow> bool" where
  \<comment> \<open>a printable ASCII character or a line feed\<close>
  "text_char c = (c = 10 \<or> (32 \<le> c \<and> c < 127))"

lemma text_char_hexdigit: "d < 16 \<Longrightarrow> text_char (hexdigit d)"
  by (simp add: text_char_def hexdigit_def)

lemma text_char_hex4: "list_all text_char (hex4 n)"
  by (simp add: hex4_def text_char_hexdigit)

lemma text_char_lits:
  "text_char 92" "text_char 34" "text_char 98" "text_char 102" "text_char 110" "text_char 114"
  "text_char 116" "text_char 117" "text_char 58" "text_char 32" "text_char 44" "text_char 10"
  "text_char 123" "text_char 125"
  by (simp_all add: text_char_def)

lemma text_char_plain: "32 \<le> c \<Longrightarrow> c \<le> 126 \<Longrightarrow> text_char c"
  by (simp add: text_char_def)

lemma text_char_escape: "list_all text_char (json_escape c)"
  unfolding json_escape_def
  by (simp add: text_char_hex4 text_char_lits text_char_plain)

lemma text_char_escaped: "list_all text_char (concat (map json_escape s))"
  by (induction s) (simp_all add: text_char_escape)

lemma text_char_string: "list_all text_char (json_string s)"
  by (simp add: json_string_def text_char_escaped text_char_lits)

lemma text_char_ws:
  "list_all text_char (sep_ws ind lvl)" "list_all text_char (open_ws ind lvl)"
  "list_all text_char (close_ws ind lvl)"
  by (auto simp: sep_ws_def open_ws_def close_ws_def text_char_lits list_all_iff split: option.splits)

lemma text_char_members:
  assumes "kvs \<noteq> []"
    and "\<And>kv. kv \<in> set kvs \<Longrightarrow> list_all text_char (json_dumps ind (Suc lvl) (snd kv))"
  shows "list_all text_char (members ind lvl kvs)"
  using assms
proof (induction kvs rule: list_nonempty_induct)
  case (single kv)
  have "list_all text_char (json_string (fst kv))" by (rule text_char_string)
  then show ?case
    using single.prems [of kv]
    by (simp add: item_def json_string_def text_char_lits del: json_dumps.simps)
next
  case (cons kv kvs)
  obtain kv' kvs' where kvs: "kvs = kv' # kvs'"
    using cons.hyps by (cases kvs) auto
  have "list_all text_char (json_string (fst kv))" by (rule text_char_string)
  moreover have "list_all text_char (members ind lvl kvs)"
    by (rule cons.IH) (simp add: cons.prems)
  ultimately show ?case
    using cons.prems [of kv] text_char_ws(1) [of ind lvl]
    by (simp add: kvs item_def json_string_def text_char_lits del: json_dumps.simps)
qed

lemma text_char_dumps: "list_all text_char (json_dumps ind lvl v)"
proof (induction v arbitrary: lvl)
  case (JStr s)
  then show ?case by (simp add: text_char_string)
next
  case (JObj kvs)
  show ?case
  proof (cases "kvs = []")
    case True
    then show ?thesis by (simp add: text_char_lits)
  next
    case False
    have "list_all text_char (json_dumps ind (Suc lvl) (snd kv))" if "kv \<in> set kvs" for kv
      by (rule JObj.IH [OF that]) (cases kv, simp)
    from text_char_members [OF False this]
    have "list_all text_char (members ind lvl kvs)" .
    then show ?thesis
      using text_char_ws [of ind lvl]
      by (simp add: json_dumps_object [OF False] text_char_lits del: json_dumps.simps)
  qed
qed

lemma text_char_less: "text_char c \<Longrightarrow> c < 128 \<and> c \<noteq> 13"
  by (auto simp: text_char_def)

lemma scalar_text_char: "text_char c \<Longrightarrow> scalar c"
  by (auto simp: text_char_def scalar_def)

lemma utf8_encode_text:
  "list_all text_char s \<Longrightarrow> utf8_encode s = Inr (map char_of s)"
proof -
  assume a: "list_all text_char s"
  then have "list_all scalar s"
    by (auto simp: list_all_iff intro: scalar_text_char)
  moreover have "concat (map utf8_char s) = map char_of s"
    using a by (induction s) (auto simp: utf8_char_def dest: text_char_less)
  ultimately show ?thesis by (simp add: utf8_encode_def)
qed

lemma utf8_first_ascii: "c < 128 \<Longrightarrow> utf8_first (char_of c # bs) = Some (c, bs)"
  by (simp add: utf8_first_def)

lemma utf8_decode_text:
  "list_all text_char s \<Longrightarrow> utf8_decode (map char_of s) = Inr s"
  by (induction s) (auto simp: utf8_first_ascii cons_ok_def dest: text_char_less)

lemma universal_newlines_id: "13 \<notin> set s \<Longrightarrow> universal_newlines s = s"
  by (induction s rule: universal_newlines.induct) auto

lemma universal_newlines_text: "list_all text_char s \<Longrightarrow> universal_newlines s = s"
  by (rule universal_newlines_id) (auto simp: list_all_iff dest: text_char_less)

lemma write_then_read:
  assumes "p \<notin> dirs w" "parent_ok w p" "list_all text_char s"
  shows "write_text p s w = (Inr (), w\<lparr>files := (files w)(p \<mapsto> map char_of s)\<rparr>)"
    and "read_text p (w\<lparr>files := (files w)(p \<mapsto> map char_of s)\<rparr>) = Inr s"
  using assms
  by (simp_all add: write_text_ok utf8_encode_text read_text_def read_bytes_def
        utf8_decode_text universal_newlines_text)

definition index_ready :: "minigit \<Rightarrow> world \<Rightarrow> bool" where
  \<comment> \<open>the index file can be written: it is no directory, and its directory exists\<close>
  "index_ready self w = (index_file self \<notin> dirs w \<and> parent_ok w (index_file self))"

lemma write_index_ok:
  assumes "index_ready self w"
  shows "write_index self v w
           = (Inr (), w\<lparr>files := (files w)(index_file self \<mapsto> map char_of (json_dumps None 0 v))\<rparr>)"
  using assms write_then_read(1) [OF _ _ text_char_dumps]
  by (simp add: write_index_def index_ready_def del: json_dumps.simps)

lemma read_index_written:
  assumes "index_ready self w" "json_ok v"
    and "files w' (index_file self) = Some (map char_of (json_dumps None 0 v))"
    and "dirs w' = dirs w"
  shows "read_index self w' = Inr v"
proof -
  have "read_text (index_file self) w' = Inr (json_dumps None 0 v)"
    using assms(1,3,4) text_char_dumps [of None 0 v]
    by (simp add: read_text_def read_bytes_def index_ready_def utf8_decode_text
          universal_newlines_text del: json_dumps.simps)
  then show ?thesis
    using assms(3) json_loads_dumps [OF assms(2)]
    by (simp add: read_index_def path_exists_def del: json_dumps.simps)
qed

lemma index_round_trip:
  assumes "index_ready self w" "json_ok v"
  shows "read_index self (snd (write_index self v w)) = Inr v"
  by (rule read_index_written [OF assms]) (simp_all add: write_index_ok [OF assms(1)] del: json_dumps.simps)

section \<open>Staging\<close>

lemma scalar_hex: "list_all hexchar h \<Longrightarrow> list_all scalar h"
  by (auto simp: list_all_iff hexchar_def scalar_def)

lemma update_twice: "AList.update k v (AList.update k v' al) = AList.update k v al"
  by (induction al) auto

lemma set_update_subset: "set (AList.update k v al) \<subseteq> insert (k, v) (set al)"
  by (induction al) auto

lemma json_ok_update:
  assumes "json_ok (JObj d)" "list_all scalar k" "json_ok v"
  shows "json_ok (JObj (AList.update k v d))"
proof -
  have "distinct (map fst (AList.update k v d))"
    using assms(1) by (simp add: distinct_update)
  moreover have "list_all (\<lambda>kv. list_all scalar (fst kv) \<and> json_ok (snd kv)) (AList.update k v d)"
    using assms set_update_subset [of k v d] by (auto simp: list_all_iff)
  ultimately show ?thesis by simp
qed

lemma stage_ok:
  assumes "index_ready self w" "read_index self w = Inr (JObj d)"
  shows "stage self p h w =
           (Inr (), w\<lparr>files := (files w)(index_file self \<mapsto>
                        map char_of (json_dumps None 0 (JObj (AList.update p (JStr h) d))))\<rparr>)"
  using assms by (simp add: stage_def setitem_def write_index_ok del: json_dumps.simps)

lemma stage_then_read:
  assumes "index_ready self w" "read_index self w = Inr (JObj d)" "json_ok (JObj d)"
    and "list_all scalar p" "list_all scalar h"
  shows "read_index self (snd (stage self p h w)) = Inr (JObj (AList.update p (JStr h) d))"
proof (rule read_index_written [OF assms(1)])
  show "json_ok (JObj (AList.update p (JStr h) d))"
    using assms(3,4,5) by (intro json_ok_update) simp_all
qed (simp_all add: stage_ok [OF assms(1,2)] del: json_dumps.simps)

lemma index_ready_same: "dirs w' = dirs w \<Longrightarrow> index_ready self w' = index_ready self w"
  by (simp add: index_ready_def parent_ok_def)

lemma store_ready_same: "dirs w' = dirs w \<Longrightarrow> store_ready self w' = store_ready self w"
  by (simp add: store_ready_def)

lemma stage_dirs: "dirs (snd (stage self p h w)) = dirs w"
  by (simp add: stage_def write_index_def split: sum.splits)

lemma stage_files:
  "q \<noteq> index_file self \<Longrightarrow> files (snd (stage self p h w)) q = files w q"
  using stage_same_at [of q self w w p h] by (simp add: same_at_def)

text \<open>
  C8 (as amended). Staging a path \<open>p\<close> with the ContentId \<open>A\<close> and then with \<open>B\<close>
  leaves the index that staging \<open>p\<close> with \<open>B\<close> alone gives: the entry of \<open>p\<close> is \<open>B\<close>, and
  \<open>A\<close> occurs in the index afterwards only if \<open>A\<close> and \<open>B\<close> are equal or another path
  was staged with \<open>A\<close>. Staging writes the index file only, so the object of \<open>A\<close> stays
  in the store.
\<close>

theorem stage_overwrites:
  assumes "index_ready self w" "read_index self w = Inr (JObj d)" "json_ok (JObj d)"
    and "list_all scalar p" "list_all scalar A" "list_all scalar B"
  shows "fst (stage self p A w) = Inr ()
         \<and> fst (stage self p B (snd (stage self p A w))) = Inr ()
         \<and> read_index self (snd (stage self p B (snd (stage self p A w))))
             = Inr (JObj (AList.update p (JStr B) d))
         \<and> map_of (AList.update p (JStr B) d) p = Some (JStr B)
         \<and> (JStr A \<in> snd ` set (AList.update p (JStr B) d) \<longrightarrow>
               A = B \<or> (\<exists>q. q \<noteq> p \<and> (q, JStr A) \<in> set d))
         \<and> (\<forall>x. x \<noteq> index_file self \<longrightarrow>
               files (snd (stage self p B (snd (stage self p A w)))) x = files w x)"
proof -
  let ?w1 = "snd (stage self p A w)"
  have r1: "read_index self ?w1 = Inr (JObj (AList.update p (JStr A) d))"
    by (rule stage_then_read [OF assms(1,2,3,4,5)])
  have i1: "index_ready self ?w1"
    using assms(1) by (simp add: index_ready_same [OF stage_dirs])
  have ok1: "json_ok (JObj (AList.update p (JStr A) d))"
    using assms(3,4,5) by (intro json_ok_update) simp_all
  have "read_index self (snd (stage self p B ?w1))
          = Inr (JObj (AList.update p (JStr B) (AList.update p (JStr A) d)))"
    by (rule stage_then_read [OF i1 r1 ok1 assms(4,6)])
  then have r2: "read_index self (snd (stage self p B ?w1)) = Inr (JObj (AList.update p (JStr B) d))"
    by (simp add: update_twice)
  have occ: "A = B \<or> (\<exists>q. q \<noteq> p \<and> (q, JStr A) \<in> set d)"
    if "JStr A \<in> snd ` set (AList.update p (JStr B) d)"
  proof -
    from that obtain q where q: "(q, JStr A) \<in> set (AList.update p (JStr B) d)"
      by auto
    then have m: "map_of (AList.update p (JStr B) d) q = Some (JStr A)"
      using assms(3) by (simp add: distinct_update)
    show ?thesis
    proof (cases "q = p")
      case True
      with m show ?thesis by (simp add: update_conv')
    next
      case False
      with m have "map_of d q = Some (JStr A)" by (simp add: update_conv')
      then have "(q, JStr A) \<in> set d" by (rule map_of_SomeD)
      with False show ?thesis by blast
    qed
  qed
  have f1: "fst (stage self p A w) = Inr ()"
    by (simp add: stage_ok [OF assms(1,2)] del: json_dumps.simps)
  have f2: "fst (stage self p B ?w1) = Inr ()"
    by (simp add: stage_ok [OF i1 r1] del: json_dumps.simps)
  have fl: "files (snd (stage self p B ?w1)) x = files w x" if "x \<noteq> index_file self" for x
    using that by (simp add: stage_files)
  have m: "map_of (AList.update p (JStr B) d) p = Some (JStr B)"
    by (simp add: update_conv')
  from f1 f2 r2 m occ fl show ?thesis by blast
qed

lemma index_ready_R0:
  "dirs w = {R0, objects_dir (self_of R0)} \<Longrightarrow> index_ready (self_of R0) w"
  by (simp add: index_ready_def parent_ok_def R0_def self_of_def path_join_def lit_def dirname_def
        rstrip_slash_def)

lemma read_index_absent: "\<not> path_exists w (index_file self) \<Longrightarrow> read_index self w = Inr (JObj [])"
  by (simp add: read_index_def)

lemma read_index_W_empty: "read_index (self_of R0) W_empty = Inr (JObj [])"
  by (rule read_index_absent)
     (simp add: path_exists_def W_empty_def R0_def self_of_def path_join_def lit_def)

definition id_one :: str where
  "id_one = sha1_hexdigest ''one''"

definition id_two :: str where
  "id_two = sha1_hexdigest ''two''"

lemma scalar_ids [simp]: "list_all scalar id_one" "list_all scalar id_two"
  by (simp_all add: id_one_def id_two_def scalar_hex hexchar_sha1_hexdigest del: sha1_hexdigest.simps)

definition W_staged :: world where
  \<comment> \<open>the empty repository after \<open>a.txt\<close> was staged with \<open>id_one\<close>\<close>
  "W_staged = snd (stage (self_of R0) (lit ''a.txt'') id_one W_empty)"

lemma W_staged_dirs: "dirs W_staged = {R0, objects_dir (self_of R0)}"
  by (simp add: W_staged_def stage_dirs) (simp add: W_empty_def)

lemma W_staged_index:
  "read_index (self_of R0) W_staged = Inr (JObj [(lit ''a.txt'', JStr id_one)])"
proof -
  have "index_ready (self_of R0) W_empty"
    by (rule index_ready_R0) (simp add: W_empty_def)
  from stage_then_read [OF this read_index_W_empty, of "lit ''a.txt''" id_one]
  show ?thesis by (simp add: W_staged_def)
qed

theorem stage_overwrites_witness:
  "index_ready (self_of R0) W_staged
   \<and> read_index (self_of R0) W_staged = Inr (JObj [(lit ''a.txt'', JStr id_one)])
   \<and> json_ok (JObj [(lit ''a.txt'', JStr id_one)])
   \<and> read_index (self_of R0)
        (snd (stage (self_of R0) (lit ''a.txt'') id_two
           (snd (stage (self_of R0) (lit ''a.txt'') id_one W_staged))))
       = Inr (JObj [(lit ''a.txt'', JStr id_two)])"
proof -
  have i: "index_ready (self_of R0) W_staged"
    by (rule index_ready_R0) (rule W_staged_dirs)
  have ok: "json_ok (JObj [(lit ''a.txt'', JStr id_one)])"
    by simp
  from stage_overwrites [OF i W_staged_index ok scalar_lit scalar_ids(1) scalar_ids(2)]
    i W_staged_index ok
  show ?thesis by simp
qed

text \<open>
  The claim as stated, that no occurrence of \<open>A\<close> is left anywhere in the index, fails
  when another path holds \<open>A\<close>: with \<open>a.txt\<close> staged with \<open>id_one\<close>, staging \<open>b.txt\<close> with
  \<open>id_one\<close> and then with \<open>id_two\<close> leaves \<open>id_one\<close> in the index.
\<close>

theorem stage_keeps_other_entry:
  "read_index (self_of R0)
     (snd (stage (self_of R0) (lit ''b.txt'') id_two
        (snd (stage (self_of R0) (lit ''b.txt'') id_one W_staged))))
    = Inr (JObj [(lit ''a.txt'', JStr id_one), (lit ''b.txt'', JStr id_two)])"
proof -
  let ?S = "self_of R0"
  let ?w1 = "snd (stage ?S (lit ''b.txt'') id_one W_staged)"
  have ne: "lit ''a.txt'' \<noteq> lit ''b.txt''"
    by (simp add: lit_def)
  have i: "index_ready ?S W_staged"
    by (rule index_ready_R0) (rule W_staged_dirs)
  have ok: "json_ok (JObj [(lit ''a.txt'', JStr id_one)])"
    by simp
  from stage_then_read [OF i W_staged_index ok, of "lit ''b.txt''" id_one]
  have r1: "read_index ?S ?w1
              = Inr (JObj [(lit ''a.txt'', JStr id_one), (lit ''b.txt'', JStr id_one)])"
    using ne by simp
  have i1: "index_ready ?S ?w1"
    using i by (simp add: index_ready_same [OF stage_dirs])
  have ok1: "json_ok (JObj [(lit ''a.txt'', JStr id_one), (lit ''b.txt'', JStr id_one)])"
    using ne by simp
  from stage_then_read [OF i1 r1 ok1, of "lit ''b.txt''" id_two]
  show ?thesis using ne by simp
qed

section \<open>commit\<close>

definition commit_data :: "str \<Rightarrow> json \<Rightarrow> str" where
  \<comment> \<open>\<open>json.dumps(commit, indent=4)\<close>\<close>
  "commit_data message index = json_dumps (Some 4) 0 (commit_record message index)"

definition commit_hash :: "str \<Rightarrow> json \<Rightarrow> str" where
  "commit_hash message index = sha1_hexdigest (map char_of (commit_data message index))"

lemma commit_unfold:
  "commit self message w =
     (case read_index self w of
        Inl e \<Rightarrow> (Inl e, w)
      | Inr index \<Rightarrow>
          if falsy index then
            and_then (py_print (lit ''No changes to commit.'') w) (\<lambda>_ w. (Inr PyNone, w))
          else
            and_then (put self (commit_data message index) w) (\<lambda>commit_hash w.
            and_then (py_print (lit ''Committed with message: '' @ message) w) (\<lambda>_ w.
            and_then (py_print (lit ''Commit hash: '' @ commit_hash) w) (\<lambda>_ w.
            (Inr PyNone, w)))))"
  unfolding commit_def commit_data_def by (rule refl)

lemma commit_empty:
  assumes "read_index self w = Inr index" "falsy index"
  shows "commit self message w = (Inr PyNone, w\<lparr>out := out w @ [lit ''No changes to commit.'']\<rparr>)"
  using assms by (simp add: commit_unfold py_print_ok)

lemma put_commit_data:
  assumes "store_ready (self_of rd) w"
  shows "put (self_of rd) (commit_data message index) w =
           (Inr (commit_hash message index),
            w\<lparr>files := (files w)(path_join (objects_dir (self_of rd)) (commit_hash message index)
                          \<mapsto> map char_of (commit_data message index))\<rparr>)"
proof -
  have "utf8_encode (commit_data message index) = Inr (map char_of (commit_data message index))"
    unfolding commit_data_def by (rule utf8_encode_text) (rule text_char_dumps)
  from put_ok [OF assms this] show ?thesis
    by (simp add: commit_hash_def del: sha1_hexdigest.simps)
qed

lemma commit_ok:
  assumes "store_ready (self_of rd) w" "read_index (self_of rd) w = Inr index" "\<not> falsy index"
    and "list_all scalar message"
  shows "commit (self_of rd) message w =
           (Inr PyNone,
            w\<lparr>files := (files w)(path_join (objects_dir (self_of rd)) (commit_hash message index)
                          \<mapsto> map char_of (commit_data message index)),
              out := out w @ [lit ''Committed with message: '' @ message,
                              lit ''Commit hash: '' @ commit_hash message index]\<rparr>)"
proof -
  have h: "list_all scalar (commit_hash message index)"
    unfolding commit_hash_def by (rule scalar_hex) (rule hexchar_sha1_hexdigest)
  show ?thesis
    using assms(2,3,4) h
    by (simp add: commit_unfold put_commit_data [OF assms(1)] py_print_ok)
qed

text \<open>
  C1 (as amended). In a repository whose objects directory exists and whose index can
  be read, \<open>commit\<close> returns \<open>None\<close> in both cases. With a non-empty index and a message
  that can be printed, it stores the serialized commit record under its ContentId and
  prints that ContentId in the line \<open>Commit hash: <id>\<close>. With an empty index it prints
  \<open>No changes to commit.\<close>, writes no file, so no new object, and computes no hash.
\<close>

theorem commit_reports:
  assumes "store_ready (self_of rd) w" "read_index (self_of rd) w = Inr index"
    and "list_all scalar message"
  shows "commit (self_of rd) message w =
           (if falsy index
            then (Inr PyNone, w\<lparr>out := out w @ [lit ''No changes to commit.'']\<rparr>)
            else (Inr PyNone,
                  w\<lparr>files := (files w)(path_join (objects_dir (self_of rd))
                                         (commit_hash message index)
                                \<mapsto> map char_of (commit_data message index)),
                    out := out w @ [lit ''Committed with message: '' @ message,
                                    lit ''Commit hash: '' @ commit_hash message index]\<rparr>))
         \<and> hash_object (commit_data message index) = Inr (commit_hash message index)"
proof -
  have "utf8_encode (commit_data message index) = Inr (map char_of (commit_data message index))"
    unfolding commit_data_def by (rule utf8_encode_text) (rule text_char_dumps)
  then have "hash_object (commit_data message index) = Inr (commit_hash message index)"
    by (simp add: hash_object_def commit_hash_def del: sha1_hexdigest.simps)
  then show ?thesis
    using commit_empty [OF assms(2), of message] commit_ok [OF assms(1,2) _ assms(3)]
    by (cases "falsy index") simp_all
qed

lemma store_ready_W_staged: "store_ready (self_of R0) W_staged"
  by (rule store_ready_R0) (rule W_staged_dirs)

theorem commit_reports_witness:
  "store_ready (self_of R0) W_staged
   \<and> read_index (self_of R0) W_staged = Inr (JObj [(lit ''a.txt'', JStr id_one)])
   \<and> list_all scalar (lit ''msg'')
   \<and> commit (self_of R0) (lit ''msg'') W_staged =
       (Inr PyNone,
        W_staged\<lparr>files := (files W_staged)(path_join (objects_dir (self_of R0))
                    (commit_hash (lit ''msg'') (JObj [(lit ''a.txt'', JStr id_one)]))
                  \<mapsto> map char_of (commit_data (lit ''msg'') (JObj [(lit ''a.txt'', JStr id_one)]))),
          out := out W_staged @ [lit ''Committed with message: '' @ lit ''msg'',
                   lit ''Commit hash: ''
                     @ commit_hash (lit ''msg'') (JObj [(lit ''a.txt'', JStr id_one)])]\<rparr>)
   \<and> read_index (self_of R0) W_empty = Inr (JObj [])
   \<and> commit (self_of R0) (lit ''msg'') W_empty
       = (Inr PyNone, W_empty\<lparr>out := out W_empty @ [lit ''No changes to commit.'']\<rparr>)"
proof -
  have e: "store_ready (self_of R0) W_empty"
    by (rule store_ready_R0) (simp add: W_empty_def)
  from commit_reports [OF store_ready_W_staged W_staged_index scalar_lit, of "''msg''"]
    commit_reports [OF e read_index_W_empty scalar_lit, of "''msg''"]
    store_ready_W_staged W_staged_index read_index_W_empty
  show ?thesis by (simp add: falsy_def)
qed

text \<open>
  The claim as stated, that \<open>commit\<close> returns the ContentId, fails: with a non-empty
  index the method returns \<open>None\<close>; the ContentId is only printed.
\<close>

theorem commit_returns_none:
  "fst (commit (self_of R0) (lit ''msg'') W_staged) = Inr PyNone
   \<and> fst (commit (self_of R0) (lit ''msg'') W_staged)
       \<noteq> Inr (PyStr (commit_hash (lit ''msg'') (JObj [(lit ''a.txt'', JStr id_one)])))
   \<and> last (out (snd (commit (self_of R0) (lit ''msg'') W_staged)))
       = lit ''Commit hash: '' @ commit_hash (lit ''msg'') (JObj [(lit ''a.txt'', JStr id_one)])"
  using commit_ok [OF store_ready_W_staged W_staged_index _ scalar_lit, of "''msg''"]
  by (simp add: falsy_def)

section \<open>add, and the snapshot a commit stores\<close>

definition blob :: "str \<Rightarrow> bytes" where
  \<comment> \<open>the bytes \<open>add\<close> stores for a text\<close>
  "blob content = concat (map utf8_char content)"

definition blob_id :: "str \<Rightarrow> str" where
  "blob_id content = sha1_hexdigest (blob content)"

definition added_report :: "str \<Rightarrow> str" where
  \<comment> \<open>\<open>f"Added file {file_path} to the index."\<close>\<close>
  "added_report file_path = lit ''Added file '' @ file_path @ lit '' to the index.''"

lemma blob_id_hex: "list_all hexchar (blob_id content)" "blob_id content \<noteq> []"
  by (simp_all add: blob_id_def hexchar_sha1_hexdigest sha1_hexdigest_nonempty
        del: sha1_hexdigest.simps)

lemma add_ok:
  assumes "store_ready (self_of rd) w" "index_ready (self_of rd) w"
    and "path_exists w p" "read_text p w = Inr content"
    and "read_index (self_of rd) w = Inr (JObj d)" "list_all scalar p"
  shows "add (self_of rd) p w =
           (Inr PyNone,
            w\<lparr>files := (files w)
                 (path_join (objects_dir (self_of rd)) (blob_id content) \<mapsto> blob content,
                  index_file (self_of rd) \<mapsto>
                    map char_of (json_dumps None 0 (JObj (AList.update p (JStr (blob_id content)) d)))),
              out := out w @ [added_report p]\<rparr>)"
proof -
  let ?S = "self_of rd"
  let ?q = "path_join (objects_dir ?S) (blob_id content)"
  let ?w1 = "w\<lparr>files := (files w)(?q \<mapsto> blob content)\<rparr>"
  have enc: "utf8_encode content = Inr (blob content)"
    using read_text_scalar [OF assms(4)] by (simp add: utf8_encode_def blob_def)
  have p: "put ?S content w = (Inr (blob_id content), ?w1)"
    using put_ok [OF assms(1) enc] by (simp add: blob_id_def del: sha1_hexdigest.simps)
  have q: "?q \<noteq> index_file ?S"
    by (rule object_path_not_index [OF blob_id_hex])
  have "same_at (index_file ?S) w ?w1"
    using q by (simp add: same_at_def)
  then have r: "read_index ?S ?w1 = Inr (JObj d)"
    using assms(5) by (simp add: read_index_same)
  have i: "index_ready ?S ?w1"
    using assms(2) by (simp add: index_ready_def parent_ok_def)
  have s: "list_all scalar (added_report p)"
    using assms(6) by (simp add: added_report_def)
  show ?thesis
    using assms(3,4) s
    by (simp add: add_def p stage_ok [OF i r] added_report_def [symmetric] py_print_ok
          del: json_dumps.simps)
qed

lemma add_ok_index:
  assumes "store_ready (self_of rd) w" "index_ready (self_of rd) w"
    and "path_exists w p" "read_text p w = Inr content"
    and "read_index (self_of rd) w = Inr (JObj d)" "list_all scalar p" "json_ok (JObj d)"
  shows "read_index (self_of rd) (snd (add (self_of rd) p w))
           = Inr (JObj (AList.update p (JStr (blob_id content)) d))"
proof (rule read_index_written [OF assms(2)])
  show "json_ok (JObj (AList.update p (JStr (blob_id content)) d))"
    using assms(6,7) scalar_hex [OF blob_id_hex(1), of content]
    by (intro json_ok_update) simp_all
qed (simp_all add: add_ok [OF assms(1-6)] del: json_dumps.simps)

lemma add_ok_dirs:
  assumes "store_ready (self_of rd) w" "index_ready (self_of rd) w"
    and "path_exists w p" "read_text p w = Inr content"
    and "read_index (self_of rd) w = Inr (JObj d)" "list_all scalar p"
  shows "dirs (snd (add (self_of rd) p w)) = dirs w"
  by (simp add: add_ok [OF assms] del: json_dumps.simps)

lemma add_ok_other:
  assumes "store_ready (self_of rd) w" "index_ready (self_of rd) w"
    and "path_exists w p" "read_text p w = Inr content"
    and "read_index (self_of rd) w = Inr (JObj d)" "list_all scalar p"
    and "x \<noteq> index_file (self_of rd)" "47 \<notin> set x"
  shows "files (snd (add (self_of rd) p w)) x = files w x"
proof -
  have "path_join (objects_dir (self_of rd)) (blob_id content)
          = objects_dir (self_of rd) @ 47 # blob_id content"
    using objects_dir_shape [of rd] blob_id_hex [of content] hexchar_not_slash [of "blob_id content"]
    by (cases "blob_id content") (auto simp: path_join_relative)
  then have "x \<noteq> path_join (objects_dir (self_of rd)) (blob_id content)"
    using assms(8) by auto
  then show ?thesis
    using assms(7) by (simp add: add_ok [OF assms(1-6)] del: json_dumps.simps)
qed

lemma index_file_last: "last (index_file (self_of rd)) = 120"
  by (simp add: self_of_def path_join_relative lit_def)

definition snapshot :: "str \<Rightarrow> str \<Rightarrow> json" where
  \<comment> \<open>the index after \<open>a.txt\<close> and \<open>b.txt\<close> were added with these contents\<close>
  "snapshot ca cb = JObj [(lit ''a.txt'', JStr (blob_id ca)), (lit ''b.txt'', JStr (blob_id cb))]"

definition deserialize :: "store_error + bytes \<Rightarrow> json option" where
  \<comment> \<open>what the bytes of an object deserialize to: decode, then \<open>json.loads\<close>\<close>
  "deserialize r =
     (case r of
        Inl e \<Rightarrow> None
      | Inr b \<Rightarrow>
          (case utf8_decode b of
             Inl e \<Rightarrow> None
           | Inr t \<Rightarrow> (case json_loads t of Inl e \<Rightarrow> None | Inr v \<Rightarrow> Some v)))"

lemma json_ok_snapshot: "json_ok (snapshot ca cb)"
proof -
  have "lit ''a.txt'' \<noteq> lit ''b.txt''" by (simp add: lit_def)
  then show ?thesis
    using scalar_hex [OF blob_id_hex(1), of ca] scalar_hex [OF blob_id_hex(1), of cb]
    by (simp add: snapshot_def)
qed

lemma json_ok_commit_record:
  "list_all scalar message \<Longrightarrow> json_ok index \<Longrightarrow> json_ok (commit_record message index)"
proof -
  have "lit ''message'' \<noteq> lit ''files''" by (simp add: lit_def)
  then show "list_all scalar message \<Longrightarrow> json_ok index \<Longrightarrow> json_ok (commit_record message index)"
    by (simp add: commit_record_def)
qed

lemma deserialize_commit:
  assumes "list_all scalar message" "json_ok index"
  shows "deserialize (Inr (map char_of (commit_data message index)))
           = Some (commit_record message index)"
proof -
  have "utf8_decode (map char_of (commit_data message index)) = Inr (commit_data message index)"
    unfolding commit_data_def by (rule utf8_decode_text) (rule text_char_dumps)
  moreover have "json_loads (commit_data message index) = Inr (commit_record message index)"
    unfolding commit_data_def by (rule json_loads_dumps) (rule json_ok_commit_record [OF assms])
  ultimately show ?thesis by (simp add: deserialize_def)
qed

lemma blob_path_not_index:
  "path_join (objects_dir (self_of rd)) (blob_id content) \<noteq> index_file (self_of rd)"
  by (rule object_path_not_index [OF blob_id_hex])

lemma read_text_same:
  "files w' p = files w p \<Longrightarrow> dirs w' = dirs w \<Longrightarrow> read_text p w' = read_text p w"
  by (simp add: read_text_def read_bytes_def)

text \<open>
  C4. In a repository with an empty index, where \<open>a.txt\<close> and \<open>b.txt\<close> are readable
  text files: after \<open>add("a.txt")\<close>, \<open>add("b.txt")\<close> and \<open>commit("msg")\<close>, all three of
  which succeed, the object stored under the commit hash (the hash \<open>commit\<close> prints last)
  deserializes to the record with the message \<open>msg\<close> and the files \<open>a.txt\<close> and \<open>b.txt\<close>
  mapped to the ContentIds that \<open>add\<close> computed for them and stored their blobs under.
\<close>

theorem commit_snapshot:
  assumes "store_ready (self_of rd) w" "index_ready (self_of rd) w"
    and "read_index (self_of rd) w = Inr (JObj [])"
    and "path_exists w (lit ''a.txt'')" "read_text (lit ''a.txt'') w = Inr ca"
    and "path_exists w (lit ''b.txt'')" "read_text (lit ''b.txt'') w = Inr cb"
    and "w1 = snd (add (self_of rd) (lit ''a.txt'') w)"
    and "w2 = snd (add (self_of rd) (lit ''b.txt'') w1)"
    and "w3 = snd (commit (self_of rd) (lit ''msg'') w2)"
  shows "fst (add (self_of rd) (lit ''a.txt'') w) = Inr PyNone
         \<and> fst (add (self_of rd) (lit ''b.txt'') w1) = Inr PyNone
         \<and> fst (commit (self_of rd) (lit ''msg'') w2) = Inr PyNone
         \<and> hash_object ca = Inr (blob_id ca) \<and> hash_object cb = Inr (blob_id cb)
         \<and> get (self_of rd) (blob_id ca) w1 = Inr (blob ca)
         \<and> get (self_of rd) (blob_id cb) w2 = Inr (blob cb)
         \<and> last (out w3) = lit ''Commit hash: '' @ commit_hash (lit ''msg'') (snapshot ca cb)
         \<and> deserialize (get (self_of rd) (commit_hash (lit ''msg'') (snapshot ca cb)) w3)
             = Some (commit_record (lit ''msg'') (snapshot ca cb))"
proof -
  let ?S = "self_of rd"
  let ?a = "lit ''a.txt''" and ?b = "lit ''b.txt''"
  have ne: "?a \<noteq> ?b" by (simp add: lit_def)
  note A = assms(1,2,4,5,3) scalar_lit
  have a1: "add ?S ?a w =
              (Inr PyNone,
               w\<lparr>files := (files w)
                    (path_join (objects_dir ?S) (blob_id ca) \<mapsto> blob ca,
                     index_file ?S \<mapsto>
                       map char_of (json_dumps None 0 (JObj (AList.update ?a (JStr (blob_id ca)) [])))),
                 out := out w @ [added_report ?a]\<rparr>)"
    by (rule add_ok [OF A])
  have d1: "dirs w1 = dirs w"
    unfolding assms(8) by (rule add_ok_dirs [OF A])
  have s1: "store_ready ?S w1" and i1: "index_ready ?S w1"
    using assms(1,2) by (simp_all add: store_ready_same [OF d1] index_ready_same [OF d1])
  have r1: "read_index ?S w1 = Inr (JObj [(?a, JStr (blob_id ca))])"
    unfolding assms(8) using add_ok_index [OF A] by simp
  have ok1: "json_ok (JObj [(?a, JStr (blob_id ca))])"
    using scalar_hex [OF blob_id_hex(1), of ca] by simp
  have bx: "?b \<noteq> index_file ?S" "47 \<notin> set ?b"
  proof -
    show "?b \<noteq> index_file ?S"
    proof
      assume "?b = index_file ?S"
      then have "last ?b = 120" by (simp only: index_file_last)
      then show False by (simp add: lit_def)
    qed
    show "47 \<notin> set ?b" by (simp add: lit_def)
  qed
  have fb: "files w1 ?b = files w ?b"
    unfolding assms(8) by (rule add_ok_other [OF A bx])
  have e1: "path_exists w1 ?b"
    using assms(6) fb d1 by (simp add: path_exists_def)
  have t1: "read_text ?b w1 = Inr cb"
    using assms(7) read_text_same [OF fb d1] by simp
  note B = s1 i1 e1 t1 r1 scalar_lit
  have a2: "fst (add ?S ?b w1) = Inr PyNone"
    by (simp add: add_ok [OF B] del: json_dumps.simps)
  have g2: "get ?S (blob_id cb) w2 = Inr (blob cb)"
    unfolding assms(9)
    by (simp add: add_ok [OF B] get_def blob_path_not_index del: json_dumps.simps)
  have d2: "dirs w2 = dirs w1"
    unfolding assms(9) by (rule add_ok_dirs [OF B])
  have s2: "store_ready ?S w2"
    using s1 by (simp add: store_ready_same [OF d2])
  have r2: "read_index ?S w2 = Inr (snapshot ca cb)"
    unfolding assms(9) using add_ok_index [OF B ok1] ne by (simp add: snapshot_def)
  have nf: "\<not> falsy (snapshot ca cb)"
    by (simp add: falsy_def snapshot_def)
  note C = commit_ok [OF s2 r2 nf scalar_lit, of "''msg''"]
  have g1: "get ?S (blob_id ca) w1 = Inr (blob ca)"
    unfolding assms(8)
    by (simp add: a1 get_def blob_path_not_index del: json_dumps.simps)
  have h: "hash_object ca = Inr (blob_id ca)" "hash_object cb = Inr (blob_id cb)"
    using read_text_scalar [OF assms(5)] read_text_scalar [OF assms(7)]
    by (simp_all add: hash_object_ok blob_id_def blob_def del: sha1_hexdigest.simps)
  have g3: "get ?S (commit_hash (lit ''msg'') (snapshot ca cb)) w3
              = Inr (map char_of (commit_data (lit ''msg'') (snapshot ca cb)))"
    unfolding assms(10) by (simp add: C get_def)
  have "deserialize (get ?S (commit_hash (lit ''msg'') (snapshot ca cb)) w3)
          = Some (commit_record (lit ''msg'') (snapshot ca cb))"
    unfolding g3 by (rule deserialize_commit [OF scalar_lit json_ok_snapshot])
  moreover have "last (out w3) = lit ''Commit hash: '' @ commit_hash (lit ''msg'') (snapshot ca cb)"
    unfolding assms(10) by (simp add: C)
  moreover have "fst (commit ?S (lit ''msg'') w2) = Inr PyNone"
    by (simp add: C)
  moreover have "fst (add ?S ?a w) = Inr PyNone"
    by (simp add: a1 del: json_dumps.simps)
  ultimately show ?thesis
    using a2 g1 g2 h by simp
qed


definition W_ab :: world where
  \<comment> \<open>two text files beside an empty repository\<close>
  "W_ab = \<lparr>files = [lit ''a.txt'' \<mapsto> ''hello'', lit ''b.txt'' \<mapsto> ''world''],
           dirs = {R0, objects_dir (self_of R0)}, out = []\<rparr>"

lemma W_ab_facts:
  "store_ready (self_of R0) W_ab" "index_ready (self_of R0) W_ab"
  "read_index (self_of R0) W_ab = Inr (JObj [])"
  "path_exists W_ab (lit ''a.txt'')" "read_text (lit ''a.txt'') W_ab = Inr (lit ''hello'')"
  "path_exists W_ab (lit ''b.txt'')" "read_text (lit ''b.txt'') W_ab = Inr (lit ''world'')"
proof -
  show "store_ready (self_of R0) W_ab"
    by (rule store_ready_R0) (simp add: W_ab_def)
  show "index_ready (self_of R0) W_ab"
    by (rule index_ready_R0) (simp add: W_ab_def)
  show "read_index (self_of R0) W_ab = Inr (JObj [])"
    by (rule read_index_absent)
       (simp add: path_exists_def W_ab_def R0_def self_of_def path_join_def lit_def)
  show "path_exists W_ab (lit ''a.txt'')" "path_exists W_ab (lit ''b.txt'')"
    by (simp_all add: path_exists_def W_ab_def)
  show "read_text (lit ''a.txt'') W_ab = Inr (lit ''hello'')"
    by (simp add: read_text_def read_bytes_def W_ab_def R0_def self_of_def path_join_def
          utf8_first_def cons_ok_def lit_def)
  show "read_text (lit ''b.txt'') W_ab = Inr (lit ''world'')"
    by (simp add: read_text_def read_bytes_def W_ab_def R0_def self_of_def path_join_def
          utf8_first_def cons_ok_def lit_def)
qed

theorem commit_snapshot_witness:
  "store_ready (self_of R0) W_ab \<and> index_ready (self_of R0) W_ab
   \<and> read_index (self_of R0) W_ab = Inr (JObj [])
   \<and> path_exists W_ab (lit ''a.txt'') \<and> read_text (lit ''a.txt'') W_ab = Inr (lit ''hello'')
   \<and> path_exists W_ab (lit ''b.txt'') \<and> read_text (lit ''b.txt'') W_ab = Inr (lit ''world'')
   \<and> deserialize
        (get (self_of R0) (commit_hash (lit ''msg'') (snapshot (lit ''hello'') (lit ''world'')))
           (snd (commit (self_of R0) (lit ''msg'')
              (snd (add (self_of R0) (lit ''b.txt'')
                 (snd (add (self_of R0) (lit ''a.txt'') W_ab)))))))
       = Some (commit_record (lit ''msg'')
           (JObj [(lit ''a.txt'', JStr (blob_id (lit ''hello''))),
                  (lit ''b.txt'', JStr (blob_id (lit ''world'')))]))"
  using commit_snapshot [OF W_ab_facts refl refl refl] W_ab_facts
  by (simp add: snapshot_def)

section \<open>Sequences of operations and the invariant of the repository\<close>

datatype op = Init | Add str | Commit str

fun step :: "minigit \<Rightarrow> op \<Rightarrow> world \<Rightarrow> world" where
  \<comment> \<open>the world after one call, whether it returned or raised\<close>
  "step self Init w = snd (init self w)"
| "step self (Add file_path) w = snd (add self file_path w)"
| "step self (Commit message) w = snd (commit self message w)"

definition run :: "minigit \<Rightarrow> op list \<Rightarrow> world \<Rightarrow> world" where
  "run self ops w = foldl (\<lambda>w op. step self op w) w ops"

fun op_ok :: "op \<Rightarrow> bool" where
  \<comment> \<open>the path of an \<open>add\<close> is a text without surrogates, as the name of a file is\<close>
  "op_ok (Add file_path) = list_all scalar file_path"
| "op_ok _ = True"

definition object_path :: "minigit \<Rightarrow> str \<Rightarrow> str" where
  "object_path self h = path_join (objects_dir self) h"

definition is_id :: "str \<Rightarrow> bool" where
  "is_id h = (list_all hexchar h \<and> h \<noteq> [])"

definition index_sound :: "minigit \<Rightarrow> world \<Rightarrow> bool" where
  \<comment> \<open>the index is a dict whose every value is the ContentId of an object in the store\<close>
  "index_sound self w =
     (\<exists>d. read_index self w = Inr (JObj d) \<and> json_ok (JObj d)
          \<and> (\<forall>kv\<in>set d. \<exists>h. snd kv = JStr h \<and> is_id h
                 \<and> files w (object_path self h) \<noteq> None))"

definition digest_named :: "minigit \<Rightarrow> world \<Rightarrow> bool" where
  \<comment> \<open>every object file is named by the digest of its bytes\<close>
  "digest_named self w =
     (\<forall>h c. is_id h \<longrightarrow> files w (object_path self h) = Some c \<longrightarrow> sha1_hexdigest c = h)"

definition repo_inv :: "str \<Rightarrow> world \<Rightarrow> bool" where
  "repo_inv rd w =
     (path_exists w rd \<and> store_ready (self_of rd) w \<and> index_ready (self_of rd) w
      \<and> index_sound (self_of rd) w \<and> digest_named (self_of rd) w)"

lemma object_path_inject:
  assumes "is_id h" "is_id h'" "object_path (self_of rd) h = object_path (self_of rd) h'"
  shows "h = h'"
proof -
  have "object_path (self_of rd) x = objects_dir (self_of rd) @ 47 # x" if "is_id x" for x
    using that objects_dir_shape [of rd] hexchar_not_slash [of x]
    by (cases x) (auto simp: object_path_def is_id_def path_join_relative)
  with assms show ?thesis by simp
qed

lemma object_path_index: "is_id h \<Longrightarrow> object_path (self_of rd) h \<noteq> index_file (self_of rd)"
  by (simp add: object_path_def is_id_def object_path_not_index)

lemma is_id_sha1: "is_id (sha1_hexdigest b)"
  by (simp add: is_id_def hexchar_sha1_hexdigest sha1_hexdigest_nonempty del: sha1_hexdigest.simps)

lemma repo_inv_out: "repo_inv rd (w\<lparr>out := x\<rparr>) = repo_inv rd w"
  by (simp add: repo_inv_def path_exists_def store_ready_def index_ready_def parent_ok_def
        index_sound_def digest_named_def read_index_def read_text_def read_bytes_def)

lemma repo_inv_object:
  assumes "repo_inv rd w"
  shows "repo_inv rd (w\<lparr>files := (files w)(object_path (self_of rd) (sha1_hexdigest b) \<mapsto> b)\<rparr>)"
    (is "repo_inv rd ?w'")
proof -
  let ?S = "self_of rd"
  let ?q = "object_path ?S (sha1_hexdigest b)"
  have q: "?q \<noteq> index_file ?S"
    by (rule object_path_index [OF is_id_sha1])
  then have "same_at (index_file ?S) w ?w'"
    by (simp add: same_at_def)
  then have r: "read_index ?S ?w' = read_index ?S w"
    by (rule read_index_same)
  from assms obtain d where d: "read_index ?S w = Inr (JObj d)" "json_ok (JObj d)"
    and pres: "\<forall>kv\<in>set d. \<exists>h. snd kv = JStr h \<and> is_id h \<and> files w (object_path ?S h) \<noteq> None"
    unfolding repo_inv_def index_sound_def by blast
  have mono: "files w x \<noteq> None \<Longrightarrow> files ?w' x \<noteq> None" for x
    by simp
  have "\<forall>kv\<in>set d. \<exists>h. snd kv = JStr h \<and> is_id h \<and> files ?w' (object_path ?S h) \<noteq> None"
    using pres mono by blast
  with d r have "index_sound ?S ?w'"
    unfolding index_sound_def by (intro exI [of _ d]) simp
  moreover have "digest_named ?S ?w'"
    unfolding digest_named_def
  proof (intro allI impI)
    fix h c
    assume h: "is_id h" and f: "files ?w' (object_path ?S h) = Some c"
    show "sha1_hexdigest c = h"
    proof (cases "object_path ?S h = ?q")
      case True
      then have "h = sha1_hexdigest b"
        by (rule object_path_inject [OF h is_id_sha1])
      moreover from True f have "c = b" by simp
      ultimately show ?thesis by simp
    next
      case False
      with f have "files w (object_path ?S h) = Some c" by simp
      with assms h show ?thesis by (simp add: repo_inv_def digest_named_def)
    qed
  qed
  ultimately show ?thesis
    using assms by (simp add: repo_inv_def path_exists_def store_ready_def index_ready_def parent_ok_def)
qed

lemma repo_inv_stage:
  assumes "repo_inv rd w" "read_index (self_of rd) w = Inr (JObj d)"
    and "list_all scalar p" "is_id h" "files w (object_path (self_of rd) h) \<noteq> None"
  shows "repo_inv rd (w\<lparr>files := (files w)(index_file (self_of rd) \<mapsto>
                        map char_of (json_dumps None 0 (JObj (AList.update p (JStr h) d))))\<rparr>)"
    (is "repo_inv rd ?w'")
proof -
  let ?S = "self_of rd"
  let ?d' = "AList.update p (JStr h) d"
  from assms(1,2) have ok: "json_ok (JObj d)"
    and pres: "\<forall>kv\<in>set d. \<exists>h. snd kv = JStr h \<and> is_id h \<and> files w (object_path ?S h) \<noteq> None"
    by (auto simp: repo_inv_def index_sound_def)
  have i: "index_ready ?S w"
    using assms(1) by (simp add: repo_inv_def)
  have ok': "json_ok (JObj ?d')"
    using ok assms(3,4) by (intro json_ok_update) (simp_all add: is_id_def scalar_hex)
  have r: "read_index ?S ?w' = Inr (JObj ?d')"
    by (rule read_index_written [OF i ok']) simp_all
  have keep: "files ?w' (object_path ?S x) = files w (object_path ?S x)" if "is_id x" for x
    using object_path_index [OF that, of rd] by simp
  have "\<exists>x. snd kv = JStr x \<and> is_id x \<and> files ?w' (object_path ?S x) \<noteq> None"
    if "kv \<in> set ?d'" for kv
  proof -
    from that set_update_subset [of p "JStr h" d] have "kv = (p, JStr h) \<or> kv \<in> set d"
      by auto
    then show ?thesis
    proof
      assume "kv = (p, JStr h)"
      then show ?thesis using assms(4,5) keep [OF assms(4)] by simp
    next
      assume "kv \<in> set d"
      with pres obtain x where "snd kv = JStr x" "is_id x" "files w (object_path ?S x) \<noteq> None"
        by blast
      then show ?thesis using keep [of x] by auto
    qed
  qed
  then have "index_sound ?S ?w'"
    unfolding index_sound_def using r ok' by blast
  moreover have "digest_named ?S ?w'"
    using assms(1) keep unfolding repo_inv_def digest_named_def by simp
  ultimately show ?thesis
    using assms(1) by (simp add: repo_inv_def path_exists_def store_ready_def index_ready_def parent_ok_def)
qed

definition step_shape :: "minigit \<Rightarrow> world \<Rightarrow> world \<Rightarrow> bool" where
  \<comment> \<open>what one call does to a sound repository: it prints only, or stores an object under
      the digest of its bytes, or stores such an object and stages it for a path\<close>
  "step_shape self w w' =
     ((\<exists>x. w' = w\<lparr>out := x\<rparr>)
      \<or> (\<exists>b x. w' = w\<lparr>files := (files w)(object_path self (sha1_hexdigest b) \<mapsto> b), out := x\<rparr>)
      \<or> (\<exists>b p d x. read_index self w = Inr (JObj d) \<and> list_all scalar p
            \<and> w' = w\<lparr>files := (files w)
                         (object_path self (sha1_hexdigest b) \<mapsto> b,
                          index_file self \<mapsto>
                            map char_of (json_dumps None 0
                              (JObj (AList.update p (JStr (sha1_hexdigest b)) d)))),
                       out := x\<rparr>))"

lemma world_out_id: "w = w\<lparr>out := out w\<rparr>"
  by simp

lemma step_init: "repo_inv rd w \<Longrightarrow> step_shape (self_of rd) w (step (self_of rd) Init w)"
proof -
  assume "repo_inv rd w"
  then have "path_exists w (repo_dir (self_of rd))"
    by (simp add: repo_inv_def self_of_def)
  then have "step (self_of rd) Init w = w\<lparr>out := out w @ [lit ''Repository already initialized.'']\<rparr>"
    by (simp add: init_def py_print_ok)
  then show ?thesis
    unfolding step_shape_def by blast
qed

lemma step_add:
  assumes "repo_inv rd w" "list_all scalar p"
  shows "step_shape (self_of rd) w (step (self_of rd) (Add p) w)"
proof -
  let ?S = "self_of rd"
  from assms(1) obtain d where d: "read_index ?S w = Inr (JObj d)"
    and s: "store_ready ?S w" and i: "index_ready ?S w"
    unfolding repo_inv_def index_sound_def by blast
  show ?thesis
  proof (cases "path_exists w p")
    case False
    from add_missing(4) [OF False assms(2), of ?S]
    have "step ?S (Add p) w = w\<lparr>out := out w @ [missing_report p]\<rparr>" by simp
    then show ?thesis unfolding step_shape_def by blast
  next
    case True
    show ?thesis
    proof (cases "read_text p w")
      case (Inl e)
      with True have "step ?S (Add p) w = w" by (simp add: add_def)
      then have "step ?S (Add p) w = w\<lparr>out := out w\<rparr>" by simp
      then show ?thesis unfolding step_shape_def by blast
    next
      case (Inr content)
      from add_ok [OF s i True Inr d assms(2)]
      have "step ?S (Add p) w =
              w\<lparr>files := (files w)
                   (object_path ?S (sha1_hexdigest (blob content)) \<mapsto> blob content,
                    index_file ?S \<mapsto>
                      map char_of (json_dumps None 0
                        (JObj (AList.update p (JStr (sha1_hexdigest (blob content))) d)))),
                 out := out w @ [added_report p]\<rparr>"
        by (simp add: object_path_def blob_id_def del: json_dumps.simps)
      with d assms(2) show ?thesis unfolding step_shape_def by blast
    qed
  qed
qed

lemma step_commit:
  assumes "repo_inv rd w"
  shows "step_shape (self_of rd) w (step (self_of rd) (Commit message) w)"
proof -
  let ?S = "self_of rd"
  from assms(1) obtain d where d: "read_index ?S w = Inr (JObj d)"
    and s: "store_ready ?S w"
    unfolding repo_inv_def index_sound_def by blast
  show ?thesis
  proof (cases "falsy (JObj d)")
    case True
    from commit_empty [OF d True, of message]
    show ?thesis unfolding step_shape_def by auto
  next
    case False
    let ?b = "map char_of (commit_data message (JObj d))"
    let ?w1 = "w\<lparr>files := (files w)(object_path ?S (sha1_hexdigest ?b) \<mapsto> ?b)\<rparr>"
    have p: "put ?S (commit_data message (JObj d)) w = (Inr (commit_hash message (JObj d)), ?w1)"
      using put_commit_data [OF s, of message "JObj d"]
      by (simp add: object_path_def commit_hash_def)
    show ?thesis
    proof (cases "list_all scalar message")
      case True
      from commit_ok [OF s d False True]
      have "step ?S (Commit message) w =
              w\<lparr>files := (files w)(object_path ?S (sha1_hexdigest ?b) \<mapsto> ?b),
                out := out w @ [lit ''Committed with message: '' @ message,
                                lit ''Commit hash: '' @ commit_hash message (JObj d)]\<rparr>"
        by (simp add: object_path_def commit_hash_def)
      then show ?thesis unfolding step_shape_def by blast
    next
      case bad: False
      have "step ?S (Commit message) w = ?w1"
        using d False bad by (simp add: commit_unfold p py_print_bad)
      then have "step ?S (Commit message) w = ?w1\<lparr>out := out w\<rparr>" by simp
      then show ?thesis unfolding step_shape_def by blast
    qed
  qed
qed

lemma step_shape_step:
  "repo_inv rd w \<Longrightarrow> op_ok op \<Longrightarrow> step_shape (self_of rd) w (step (self_of rd) op w)"
  by (cases op) (simp_all only: step_init step_add step_commit op_ok.simps)

lemma repo_inv_shape:
  assumes "repo_inv rd w" "step_shape (self_of rd) w w'"
  shows "repo_inv rd w'"
proof -
  let ?S = "self_of rd"
  from assms(2) consider
      x where "w' = w\<lparr>out := x\<rparr>"
    | b x where "w' = w\<lparr>files := (files w)(object_path ?S (sha1_hexdigest b) \<mapsto> b), out := x\<rparr>"
    | b p d x where "read_index ?S w = Inr (JObj d)" "list_all scalar p"
        "w' = w\<lparr>files := (files w)
                   (object_path ?S (sha1_hexdigest b) \<mapsto> b,
                    index_file ?S \<mapsto>
                      map char_of (json_dumps None 0
                        (JObj (AList.update p (JStr (sha1_hexdigest b)) d)))),
                 out := x\<rparr>"
    unfolding step_shape_def by blast
  then show ?thesis
  proof cases
    case 1
    with assms(1) show ?thesis by (simp add: repo_inv_out)
  next
    case 2
    have "repo_inv rd ((w\<lparr>files := (files w)(object_path ?S (sha1_hexdigest b) \<mapsto> b)\<rparr>)\<lparr>out := x\<rparr>)"
      unfolding repo_inv_out by (rule repo_inv_object [OF assms(1)])
    with 2 show ?thesis by simp
  next
    case 3
    let ?w1 = "w\<lparr>files := (files w)(object_path ?S (sha1_hexdigest b) \<mapsto> b)\<rparr>"
    have inv1: "repo_inv rd ?w1"
      by (rule repo_inv_object [OF assms(1)])
    have "same_at (index_file ?S) w ?w1"
      using object_path_index [OF is_id_sha1, of rd b] by (simp add: same_at_def)
    then have r1: "read_index ?S ?w1 = Inr (JObj d)"
      using 3(1) by (simp add: read_index_same)
    have "repo_inv rd
            ((?w1\<lparr>files := (files ?w1)(index_file ?S \<mapsto>
                 map char_of (json_dumps None 0
                   (JObj (AList.update p (JStr (sha1_hexdigest b)) d))))\<rparr>)\<lparr>out := x\<rparr>)"
      unfolding repo_inv_out
      by (rule repo_inv_stage [OF inv1 r1 3(2) is_id_sha1]) simp
    with 3(3) show ?thesis by (simp del: json_dumps.simps)
  qed
qed

lemma shape_keeps_files:
  assumes "step_shape self w w'" "files w q \<noteq> None"
  shows "files w' q \<noteq> None"
  using assms unfolding step_shape_def by auto

lemma shape_keeps_dirs: "step_shape self w w' \<Longrightarrow> dirs w' = dirs w"
  unfolding step_shape_def by auto

lemma run_Nil [simp]: "run self [] w = w"
  by (simp add: run_def)

lemma run_Cons [simp]: "run self (x # xs) w = run self xs (step self x w)"
  by (simp add: run_def)

lemma run_append: "run self (xs @ ys) w = run self ys (run self xs w)"
  by (simp add: run_def)

lemma run_inv:
  assumes "repo_inv rd w" "list_all op_ok ops"
  shows "repo_inv rd (run (self_of rd) ops w)"
    and "files w q \<noteq> None \<Longrightarrow> files (run (self_of rd) ops w) q \<noteq> None"
  using assms
proof (induction ops arbitrary: w)
  case Nil
  { case 1 then show ?case by simp }
  { case 2 then show ?case by simp }
next
  case (Cons x xs)
  { case 1
    from 1 have sh: "step_shape (self_of rd) w (step (self_of rd) x w)"
      by (simp add: step_shape_step)
    from repo_inv_shape [OF 1(1) sh] 1(2) show ?case
      by (simp add: Cons.IH(1)) }
  { case 2
    from 2 have sh: "step_shape (self_of rd) w (step (self_of rd) x w)"
      by (simp add: step_shape_step)
    from repo_inv_shape [OF 2(2) sh] shape_keeps_files [OF sh 2(1)] 2(3) show ?case
      by (simp add: Cons.IH(2)) }
qed

lemma commit_stores_record:
  assumes "repo_inv rd w" "read_index (self_of rd) w = Inr (JObj d)" "d \<noteq> []"
  shows "files (step (self_of rd) (Commit message) w)
           (object_path (self_of rd) (commit_hash message (JObj d)))
         = Some (map char_of (commit_data message (JObj d)))"
proof -
  let ?S = "self_of rd"
  from assms(1) have s: "store_ready ?S w"
    by (simp add: repo_inv_def)
  have nf: "\<not> falsy (JObj d)"
    using assms(3) by (simp add: falsy_def)
  show ?thesis
  proof (cases "list_all scalar message")
    case True
    from commit_ok [OF s assms(2) nf True] show ?thesis
      by (simp add: object_path_def)
  next
    case False
    then show ?thesis
      using assms(2) nf
      by (simp add: commit_unfold put_commit_data [OF s] py_print_bad object_path_def)
  qed
qed

lemma object_path_has_slash: "is_id h \<Longrightarrow> 47 \<in> set (object_path (self_of rd) h)"
proof -
  assume h: "is_id h"
  have "object_path (self_of rd) h = objects_dir (self_of rd) @ 47 # h"
    using h objects_dir_shape [of rd] hexchar_not_slash [of h]
    by (cases h) (auto simp: object_path_def is_id_def path_join_relative)
  then show ?thesis by simp
qed

lemma repo_inv_W_ab: "repo_inv R0 W_ab"
proof -
  have "files W_ab (object_path (self_of R0) h) = None" if "is_id h" for h
  proof -
    have "object_path (self_of R0) h \<noteq> lit ''a.txt''" "object_path (self_of R0) h \<noteq> lit ''b.txt''"
      using object_path_has_slash [OF that, of R0] by (auto simp: lit_def)
    then show ?thesis by (simp add: W_ab_def)
  qed
  then have "digest_named (self_of R0) W_ab"
    by (simp add: digest_named_def)
  moreover have "index_sound (self_of R0) W_ab"
    unfolding index_sound_def using W_ab_facts(3) by (intro exI [of _ "[]"]) simp
  moreover have "path_exists W_ab R0"
    by (simp add: path_exists_def W_ab_def)
  ultimately show ?thesis
    using W_ab_facts(1,2) by (simp add: repo_inv_def)
qed

section \<open>The parser consumes its input\<close>


lemma parse_shorter:
  shows "parse_value s = Some (v, r) \<Longrightarrow> length r < length s"
    and "parse_members acc s' = Some (v', r') \<Longrightarrow> length r' < length s'"
proof (induction s and acc s' arbitrary: v r and v' r' rule: parse_value_parse_members.induct)
  case (1 s)
  show ?case
  proof -
    note a = "1.prems"
    then obtain c t where s: "s = c # t"
      by (cases s) (simp_all add: parse_value.simps)
    show "length r < length s"
    proof (cases "c = 34")
      case True
      with a s obtain x where "scan_string t = Some (x, r)"
        by (auto simp: parse_value.simps split: option.splits)
      from scan_string_shorter [OF this] s show ?thesis by simp
    next
      case False
      with a s have c: "c = 123"
        by (auto simp: parse_value.simps split: if_splits)
      with a s obtain d t' where t: "skip_ws t = d # t'"
        by (cases "skip_ws t") (auto simp: parse_value.simps)
      have le: "length (skip_ws t) \<le> length t" by (rule length_skip_ws)
      show ?thesis
      proof (cases "d = 125")
        case True
        with a s c t have "r = t'" by (simp add: parse_value.simps)
        with le t s show ?thesis by simp
      next
        case n: False
        with a s c t have d: "d = 34" and m: "parse_members [] t' = Some (v, r)"
          by (auto simp: parse_value.simps split: if_splits)
        from "1.IH" [OF s _ c t n d] False m have "length r < length t'"
          by simp
        with le t s show ?thesis by simp
      qed
    qed
  qed
next
  case (2 acc s)
  show ?case
  proof -
    note a = "2.prems"
    from a obtain k r1 where k: "scan_string s = Some (k, r1)"
      by (subst (asm) parse_members.simps) (auto split: option.splits)
    from a k obtain c r2 where r1: "skip_ws r1 = c # r2" and c: "c = 58"
      by (subst (asm) parse_members.simps) (auto split: list.splits if_splits)
    from a k r1 c obtain v r3 where v: "parse_value (skip_ws r2) = Some (v, r3)"
      by (subst (asm) parse_members.simps) (auto split: option.splits)
    from a k r1 c v obtain d r4 where r3: "skip_ws r3 = d # r4"
      by (subst (asm) parse_members.simps) (auto split: list.splits)
    have l1: "length r1 < length s" by (rule scan_string_shorter [OF k])
    have l2: "length r2 < length r1"
      using length_skip_ws [of r1] r1 by simp
    have l3: "length r3 < length (skip_ws r2)"
      using "2.IH"(1) [OF k refl r1 _ , of v r3] c v by simp
    have l4: "length r4 < length r3"
      using length_skip_ws [of r3] r3 by simp
    have l5: "length (skip_ws r2) \<le> length r2" by (rule length_skip_ws)
    show "length r' < length s"
    proof (cases "d = 125")
      case True
      with a k r1 c v r3 have "r' = r4"
        by (subst (asm) parse_members.simps) simp
      with l1 l2 l3 l4 l5 show ?thesis by simp
    next
      case False
      with a k r1 c v r3 obtain q r5 where r4: "skip_ws r4 = q # r5" and g: "length r5 < length s"
        and m: "parse_members (AList.update k v acc) r5 = Some (v', r')"
        by (subst (asm) parse_members.simps) (auto split: list.splits if_splits)
      from a k r1 c v r3 False have d: "d = 44"
        by (subst (asm) parse_members.simps) (auto split: list.splits if_splits)
      from a k r1 c v r3 False r4 have q: "q = 34"
        by (subst (asm) parse_members.simps) (auto split: list.splits if_splits)
      have "length r' < length r5"
        using "2.IH"(2) [OF k refl r1 _ v refl r3 False _ r4, of v' r'] c d q g m by simp
      with g show ?thesis by simp
    qed
  qed
qed


lemma members_progress:
  assumes "scan_string s = Some (k, r1)" "skip_ws r1 = c # r2"
    and "parse_value (skip_ws r2) = Some (v, r3)" "skip_ws r3 = d # r4" "skip_ws r4 = q # r5"
  shows "length r5 < length s"
proof -
  have "length r1 < length s" by (rule scan_string_shorter [OF assms(1)])
  moreover have "length r2 < length r1"
    using length_skip_ws [of r1] assms(2) by simp
  moreover have "length r3 < length (skip_ws r2)" by (rule parse_shorter(1) [OF assms(3)])
  moreover have "length (skip_ws r2) \<le> length r2" by (rule length_skip_ws)
  moreover have "length r4 < length r3"
    using length_skip_ws [of r3] assms(4) by simp
  moreover have "length r5 < length r4"
    using length_skip_ws [of r4] assms(5) by simp
  ultimately show ?thesis by simp
qed

lemma parse_members_loop:
  "parse_members acc s =
     (case scan_string s of
        None \<Rightarrow> None
      | Some (k, r1) \<Rightarrow>
          (case skip_ws r1 of
             [] \<Rightarrow> None
           | c # r2 \<Rightarrow>
               if c \<noteq> 58 then None
               else case parse_value (skip_ws r2) of
                 None \<Rightarrow> None
               | Some (v, r3) \<Rightarrow>
                   (case skip_ws r3 of
                      [] \<Rightarrow> None
                    | d # r4 \<Rightarrow>
                        if d = 125 then Some (JObj (AList.update k v acc), r4)
                        else if d \<noteq> 44 then None
                        else case skip_ws r4 of
                          [] \<Rightarrow> None
                        | q # r5 \<Rightarrow>
                            if q = 34 then parse_members (AList.update k v acc) r5 else None)))"
  by (subst parse_members.simps)
     (auto split: option.splits list.splits dest: members_progress)

section \<open>What the operations write into the store\<close>

fun written :: "minigit \<Rightarrow> op \<Rightarrow> world \<Rightarrow> bytes list" where
  \<comment> \<open>the bytes a call hands to the store step: the encoded text of the file for \<open>add\<close>,
      the encoded commit record for \<open>commit\<close>, none when the call returns or raises before\<close>
  "written self Init w = []"
| "written self (Add file_path) w =
     (if \<not> path_exists w file_path then []
      else (case read_text file_path w of
              Inl e \<Rightarrow> []
            | Inr content \<Rightarrow> (case utf8_encode content of Inl e \<Rightarrow> [] | Inr b \<Rightarrow> [b])))"
| "written self (Commit message) w =
     (case read_index self w of
        Inl e \<Rightarrow> []
      | Inr index \<Rightarrow>
          if falsy index then []
          else (case utf8_encode (json_dumps (Some 4) 0 (commit_record message index)) of
                  Inl e \<Rightarrow> []
                | Inr b \<Rightarrow> [b]))"

fun stored :: "minigit \<Rightarrow> op list \<Rightarrow> world \<Rightarrow> bytes list" where
  \<comment> \<open>all the bytes a sequence of calls hands to the store step\<close>
  "stored self [] w = []"
| "stored self (x # xs) w = written self x w @ stored self xs (step self x w)"

lemma step_keeps_object:
  assumes inv: "repo_inv rd w" and ok: "op_ok x" and h: "is_id h"
    and c: "files w (object_path (self_of rd) h) = Some c"
    and free: "\<forall>b\<in>set (written (self_of rd) x w). sha1_hexdigest b = sha1_hexdigest c \<longrightarrow> b = c"
  shows "files (step (self_of rd) x w) (object_path (self_of rd) h) = Some c"
proof -
  let ?S = "self_of rd"
  from inv obtain d where d: "read_index ?S w = Inr (JObj d)"
    and s: "store_ready ?S w" and i: "index_ready ?S w" and dn: "digest_named ?S w"
    unfolding repo_inv_def index_sound_def by blast
  from dn h c have hc: "sha1_hexdigest c = h"
    by (simp add: digest_named_def)
  have ni: "object_path ?S h \<noteq> index_file ?S"
    by (rule object_path_index [OF h])
  have hit: "b = c" if "object_path ?S h = object_path ?S (sha1_hexdigest b)"
      "b \<in> set (written ?S x w)" for b
  proof -
    from that(1) have "h = sha1_hexdigest b"
      by (rule object_path_inject [OF h is_id_sha1])
    with hc free that(2) show ?thesis by simp
  qed
  show ?thesis
  proof (cases x)
    case Init
    from inv have "path_exists w (repo_dir ?S)"
      by (simp add: repo_inv_def self_of_def)
    with Init c show ?thesis by (simp add: init_def py_print_ok)
  next
    case (Add p)
    with ok have p: "list_all scalar p" by simp
    show ?thesis
    proof (cases "path_exists w p")
      case False
      from add_missing(1) [OF False, of ?S] Add c show ?thesis by simp
    next
      case True
      show ?thesis
      proof (cases "read_text p w")
        case (Inl e)
        with True Add c show ?thesis by (simp add: add_def)
      next
        case (Inr content)
        have enc: "utf8_encode content = Inr (blob content)"
          using read_text_scalar [OF Inr] by (simp add: utf8_encode_def blob_def)
        have w: "blob content \<in> set (written ?S x w)"
          using Add True Inr enc by simp
        have "files (step ?S x w) (object_path ?S h) =
                ((files w)(object_path ?S (sha1_hexdigest (blob content)) \<mapsto> blob content))
                  (object_path ?S h)"
          using ni by (simp add: Add add_ok [OF s i True Inr d p] object_path_def blob_id_def
                del: json_dumps.simps)
        with c hit [OF _ w] show ?thesis by auto
      qed
    qed
  next
    case (Commit message)
    show ?thesis
    proof (cases "falsy (JObj d)")
      case True
      from commit_empty [OF d True, of message] Commit c show ?thesis by simp
    next
      case False
      then have ne: "d \<noteq> []" by (simp add: falsy_def)
      let ?b = "map char_of (commit_data message (JObj d))"
      have enc: "utf8_encode (json_dumps (Some 4) 0 (commit_record message (JObj d))) = Inr ?b"
        unfolding commit_data_def by (rule utf8_encode_text) (rule text_char_dumps)
      have w: "?b \<in> set (written ?S x w)"
        using Commit d False enc by (simp del: json_dumps.simps)
      have st: "files (step ?S x w) (object_path ?S (sha1_hexdigest ?b)) = Some ?b"
        using commit_stores_record [OF inv d ne, of message] by (simp add: Commit commit_hash_def)
      show ?thesis
      proof (cases "object_path ?S h = object_path ?S (sha1_hexdigest ?b)")
        case True
        with st hit [OF True w] show ?thesis by simp
      next
        case other: False
        have sh: "step_shape ?S w (step ?S x w)"
          unfolding Commit by (rule step_commit [OF inv])
        have "files (step ?S x w) (object_path ?S h) = files w (object_path ?S h)"
        proof -
          have "same_at (object_path ?S h) w (snd (commit ?S message w))"
            unfolding commit_unfold d
            using False other
            by (auto simp: commit_hash_def object_path_def hash_object_def enc commit_data_def
                  simp del: json_dumps.simps
                  intro!: same_at_and_then same_at_print put_same_at)
          then show ?thesis by (simp add: Commit same_at_def)
        qed
        with c show ?thesis by simp
      qed
    qed
  qed
qed

lemma run_keeps_object:
  assumes "repo_inv rd w" "list_all op_ok ops" "is_id h"
    and "files w (object_path (self_of rd) h) = Some c"
    and "\<forall>b\<in>set (stored (self_of rd) ops w). sha1_hexdigest b = sha1_hexdigest c \<longrightarrow> b = c"
  shows "files (run (self_of rd) ops w) (object_path (self_of rd) h) = Some c"
  using assms
proof (induction ops arbitrary: w)
  case Nil
  then show ?case by simp
next
  case (Cons x xs)
  from Cons.prems have ok: "op_ok x" "list_all op_ok xs" by simp_all
  have sh: "step_shape (self_of rd) w (step (self_of rd) x w)"
    by (rule step_shape_step [OF Cons.prems(1) ok(1)])
  have inv': "repo_inv rd (step (self_of rd) x w)"
    by (rule repo_inv_shape [OF Cons.prems(1) sh])
  have "files (step (self_of rd) x w) (object_path (self_of rd) h) = Some c"
    using Cons.prems(5) by (intro step_keeps_object [OF Cons.prems(1) ok(1) Cons.prems(3,4)]) simp
  from Cons.IH [OF inv' ok(2) Cons.prems(3) this] Cons.prems(5) show ?case
    by simp
qed

section \<open>Two texts with one digest\<close>

definition a_text :: "nat \<Rightarrow> str" where
  \<comment> \<open>the letter \<open>a\<close>, \<open>n\<close> times\<close>
  "a_text n = replicate n 97"

lemma text_char_a_text: "list_all text_char (a_text n)"
  by (simp add: a_text_def list_all_iff text_char_def)

lemma blob_text: "list_all text_char s \<Longrightarrow> blob s = map char_of s"
  using utf8_encode_text [of s] by (simp add: utf8_encode_def blob_def split: if_splits)

lemma finite_ids: "finite {h. set h \<subseteq> {c. hexchar c} \<and> length h = 40}"
proof (rule finite_lists_length_eq)
  have "{c. hexchar c} \<subseteq> {..102}"
    by (auto simp: hexchar_def)
  then show "finite {c. hexchar c}"
    by (rule finite_subset) simp
qed

lemma sha1_collision:
  "\<exists>m n. m \<noteq> n \<and> blob_id (a_text m) = blob_id (a_text n)"
proof -
  let ?f = "\<lambda>n. blob_id (a_text n)"
  have "range ?f \<subseteq> {h. set h \<subseteq> {c. hexchar c} \<and> length h = 40}"
    using hexchar_sha1_hexdigest length_sha1_hexdigest
    by (auto simp: blob_id_def list_all_iff)
  then have "finite (range ?f)"
    by (rule finite_subset) (rule finite_ids)
  then have "\<not> inj ?f"
    using finite_imageD [of ?f UNIV] infinite_UNIV_nat by blast
  then show ?thesis
    by (auto simp: inj_on_def)
qed

definition W_two :: "str \<Rightarrow> str \<Rightarrow> world" where
  \<comment> \<open>the files \<open>a.txt\<close> and \<open>b.txt\<close> with the texts \<open>s\<close> and \<open>t\<close>, beside an empty repository\<close>
  "W_two s t =
     \<lparr>files = [lit ''a.txt'' \<mapsto> map char_of s, lit ''b.txt'' \<mapsto> map char_of t],
      dirs = {R0, objects_dir (self_of R0)}, out = []\<rparr>"

lemma W_two_facts:
  assumes "list_all text_char s" "list_all text_char t"
  shows "store_ready (self_of R0) (W_two s t)" "index_ready (self_of R0) (W_two s t)"
    "read_index (self_of R0) (W_two s t) = Inr (JObj [])"
    "path_exists (W_two s t) (lit ''a.txt'')" "read_text (lit ''a.txt'') (W_two s t) = Inr s"
    "path_exists (W_two s t) (lit ''b.txt'')" "read_text (lit ''b.txt'') (W_two s t) = Inr t"
proof -
  show "store_ready (self_of R0) (W_two s t)"
    by (rule store_ready_R0) (simp add: W_two_def)
  show "index_ready (self_of R0) (W_two s t)"
    by (rule index_ready_R0) (simp add: W_two_def)
  show "read_index (self_of R0) (W_two s t) = Inr (JObj [])"
    by (rule read_index_absent)
       (simp add: path_exists_def W_two_def R0_def self_of_def path_join_def lit_def)
  show "path_exists (W_two s t) (lit ''a.txt'')" "path_exists (W_two s t) (lit ''b.txt'')"
    by (simp_all add: path_exists_def W_two_def)
  have na: "lit ''a.txt'' \<notin> dirs (W_two s t)" and nb: "lit ''b.txt'' \<notin> dirs (W_two s t)"
    by (simp_all add: W_two_def R0_def self_of_def path_join_def lit_def)
  have ab: "lit ''b.txt'' \<noteq> lit ''a.txt''"
    by (simp add: lit_def)
  have "files (W_two s t) (lit ''a.txt'') = Some (map char_of s)"
    using ab by (simp add: W_two_def)
  with na show "read_text (lit ''a.txt'') (W_two s t) = Inr s"
    using assms(1) by (simp add: read_text_def read_bytes_def utf8_decode_text universal_newlines_text)
  have "files (W_two s t) (lit ''b.txt'') = Some (map char_of t)"
    by (simp add: W_two_def)
  with nb show "read_text (lit ''b.txt'') (W_two s t) = Inr t"
    using assms(2) by (simp add: read_text_def read_bytes_def utf8_decode_text universal_newlines_text)
qed

lemma repo_inv_W_two:
  assumes "list_all text_char s" "list_all text_char t"
  shows "repo_inv R0 (W_two s t)"
proof -
  have "files (W_two s t) (object_path (self_of R0) h) = None" if "is_id h" for h
  proof -
    have "object_path (self_of R0) h \<noteq> lit ''a.txt''" "object_path (self_of R0) h \<noteq> lit ''b.txt''"
      using object_path_has_slash [OF that, of R0] by (auto simp: lit_def)
    then show ?thesis by (simp add: W_two_def)
  qed
  then have "digest_named (self_of R0) (W_two s t)"
    by (simp add: digest_named_def)
  moreover have "index_sound (self_of R0) (W_two s t)"
    unfolding index_sound_def using W_two_facts(3) [OF assms] by (intro exI [of _ "[]"]) simp
  moreover have "path_exists (W_two s t) R0"
    by (simp add: path_exists_def W_two_def)
  ultimately show ?thesis
    using W_two_facts(1,2) [OF assms] by (simp add: repo_inv_def)
qed

lemma two_adds:
  assumes "store_ready (self_of rd) w" "index_ready (self_of rd) w"
    and "read_index (self_of rd) w = Inr (JObj [])"
    and "path_exists w (lit ''a.txt'')" "read_text (lit ''a.txt'') w = Inr ca"
    and "path_exists w (lit ''b.txt'')" "read_text (lit ''b.txt'') w = Inr cb"
  shows "files (run (self_of rd) [Add (lit ''a.txt'')] w) (object_path (self_of rd) (blob_id ca))
           = Some (blob ca)"
    and "files (run (self_of rd) [Add (lit ''a.txt''), Add (lit ''b.txt'')] w)
           (object_path (self_of rd) (blob_id cb)) = Some (blob cb)"
proof -
  let ?S = "self_of rd"
  let ?a = "lit ''a.txt''" and ?b = "lit ''b.txt''"
  let ?w1 = "snd (add ?S ?a w)"
  note A = assms(1,2,4,5,3) scalar_lit
  show g1: "files (run ?S [Add ?a] w) (object_path ?S (blob_id ca)) = Some (blob ca)"
    by (simp add: add_ok [OF A] object_path_def blob_path_not_index del: json_dumps.simps)
  have d1: "dirs ?w1 = dirs w"
    by (rule add_ok_dirs [OF A])
  have s1: "store_ready ?S ?w1" and i1: "index_ready ?S ?w1"
    using assms(1,2) by (simp_all add: store_ready_same [OF d1] index_ready_same [OF d1])
  have r1: "read_index ?S ?w1 = Inr (JObj [(?a, JStr (blob_id ca))])"
    using add_ok_index [OF A] by simp
  have bx: "?b \<noteq> index_file ?S" "47 \<notin> set ?b"
  proof -
    show "?b \<noteq> index_file ?S"
    proof
      assume "?b = index_file ?S"
      then have "last ?b = 120" by (simp only: index_file_last)
      then show False by (simp add: lit_def)
    qed
    show "47 \<notin> set ?b" by (simp add: lit_def)
  qed
  have fb: "files ?w1 ?b = files w ?b"
    by (rule add_ok_other [OF A bx])
  have e1: "path_exists ?w1 ?b"
    using assms(6) fb d1 by (simp add: path_exists_def)
  have t1: "read_text ?b ?w1 = Inr cb"
    using assms(7) read_text_same [OF fb d1] by simp
  note B = s1 i1 e1 t1 r1 scalar_lit
  show "files (run ?S [Add ?a, Add ?b] w) (object_path ?S (blob_id cb)) = Some (blob cb)"
    by (simp add: add_ok [OF B] object_path_def blob_path_not_index del: json_dumps.simps)
qed

section \<open>The invariant of the store\<close>

text \<open>
  C6 (as amended). From a sound repository (the objects directory and the index in place,
  every value of the index the ContentId of an object in the store, every object named by
  the digest of its bytes), any sequence of \<open>init\<close>, \<open>add\<close> and \<open>commit\<close> leads to a sound
  repository again: every ContentId in the index names an object that is present. A
  commit made on the way stored its record under the commit hash, and that object and
  the object of every ContentId in the record are present at the end. No operation
  deletes a file. An object that was present is present at the end with bytes of the
  same digest, and with the very same bytes when none of the texts the operations stored
  has the digest of the object and other bytes: the store step opens the object file
  for writing every time, so that only a text with the same SHA-1 digest can replace
  the bytes of an object.
\<close>

theorem store_grows:
  assumes "repo_inv rd w0" "list_all op_ok ops" "w = run (self_of rd) ops w0"
  shows "repo_inv rd w
         \<and> (\<forall>q. files w0 q \<noteq> None \<longrightarrow> files w q \<noteq> None)
         \<and> (\<forall>h c. is_id h \<longrightarrow> files w0 (object_path (self_of rd) h) = Some c \<longrightarrow>
               (\<exists>c'. files w (object_path (self_of rd) h) = Some c'
                    \<and> sha1_hexdigest c' = sha1_hexdigest c)
               \<and> ((\<forall>b\<in>set (stored (self_of rd) ops w0).
                      sha1_hexdigest b = sha1_hexdigest c \<longrightarrow> b = c) \<longrightarrow>
                    files w (object_path (self_of rd) h) = Some c))
         \<and> (\<forall>ops1 message ops2 d.
               ops = ops1 @ Commit message # ops2 \<longrightarrow>
               read_index (self_of rd) (run (self_of rd) ops1 w0) = Inr (JObj d) \<longrightarrow> d \<noteq> [] \<longrightarrow>
               files (step (self_of rd) (Commit message) (run (self_of rd) ops1 w0))
                  (object_path (self_of rd) (commit_hash message (JObj d)))
                 = Some (map char_of (commit_data message (JObj d)))
               \<and> files w (object_path (self_of rd) (commit_hash message (JObj d))) \<noteq> None
               \<and> (\<forall>kv\<in>set d. \<exists>h. snd kv = JStr h \<and> is_id h
                      \<and> files w (object_path (self_of rd) h) \<noteq> None))"
proof -
  let ?S = "self_of rd"
  have inv: "repo_inv rd w"
    unfolding assms(3) by (rule run_inv(1) [OF assms(1,2)])
  have keep: "files w q \<noteq> None" if "files w0 q \<noteq> None" for q
    unfolding assms(3) by (rule run_inv(2) [OF assms(1,2) that])
  have same: "(\<exists>c'. files w (object_path ?S h) = Some c' \<and> sha1_hexdigest c' = sha1_hexdigest c)
              \<and> ((\<forall>b\<in>set (stored ?S ops w0). sha1_hexdigest b = sha1_hexdigest c \<longrightarrow> b = c) \<longrightarrow>
                   files w (object_path ?S h) = Some c)"
    if "is_id h" "files w0 (object_path ?S h) = Some c" for h c
  proof
    from that(2) have "files w (object_path ?S h) \<noteq> None"
      by (intro keep) simp
    then obtain c' where c': "files w (object_path ?S h) = Some c'" by auto
    from inv that(1) c' have "sha1_hexdigest c' = h"
      by (simp add: repo_inv_def digest_named_def)
    moreover from assms(1) that have "sha1_hexdigest c = h"
      by (simp add: repo_inv_def digest_named_def)
    ultimately show "\<exists>c'. files w (object_path ?S h) = Some c' \<and> sha1_hexdigest c' = sha1_hexdigest c"
      using c' by simp
    show "(\<forall>b\<in>set (stored ?S ops w0). sha1_hexdigest b = sha1_hexdigest c \<longrightarrow> b = c) \<longrightarrow>
            files w (object_path ?S h) = Some c"
      unfolding assms(3) using run_keeps_object [OF assms(1,2) that] by blast
  qed
  have commits: "files (step ?S (Commit message) (run ?S ops1 w0))
                    (object_path ?S (commit_hash message (JObj d)))
                   = Some (map char_of (commit_data message (JObj d)))
                 \<and> files w (object_path ?S (commit_hash message (JObj d))) \<noteq> None
                 \<and> (\<forall>kv\<in>set d. \<exists>h. snd kv = JStr h \<and> is_id h
                        \<and> files w (object_path ?S h) \<noteq> None)"
    if split: "ops = ops1 @ Commit message # ops2"
      and d: "read_index ?S (run ?S ops1 w0) = Inr (JObj d)" "d \<noteq> []"
    for ops1 message ops2 d
  proof -
    let ?w1 = "run ?S ops1 w0"
    let ?w2 = "step ?S (Commit message) ?w1"
    from assms(2) split have ok1: "list_all op_ok ops1" and ok2: "list_all op_ok ops2"
      by simp_all
    have inv1: "repo_inv rd ?w1"
      by (rule run_inv(1) [OF assms(1) ok1])
    have sh: "step_shape ?S ?w1 ?w2"
      by (rule step_commit [OF inv1])
    have inv2: "repo_inv rd ?w2"
      by (rule repo_inv_shape [OF inv1 sh])
    have w: "w = run ?S ops2 ?w2"
      unfolding assms(3) split by (simp add: run_append)
    have st: "files ?w2 (object_path ?S (commit_hash message (JObj d)))
                = Some (map char_of (commit_data message (JObj d)))"
      by (rule commit_stores_record [OF inv1 d])
    then have "files ?w2 (object_path ?S (commit_hash message (JObj d))) \<noteq> None"
      by simp
    then have fin: "files w (object_path ?S (commit_hash message (JObj d))) \<noteq> None"
      unfolding w by (rule run_inv(2) [OF inv2 ok2])
    have "\<exists>h. snd kv = JStr h \<and> is_id h \<and> files w (object_path ?S h) \<noteq> None"
      if "kv \<in> set d" for kv
    proof -
      from inv1 d(1) that obtain h where h: "snd kv = JStr h" "is_id h"
        "files ?w1 (object_path ?S h) \<noteq> None"
        unfolding repo_inv_def index_sound_def by auto
      from shape_keeps_files [OF sh h(3)]
      have "files w (object_path ?S h) \<noteq> None"
        unfolding w by (rule run_inv(2) [OF inv2 ok2])
      with h show ?thesis by blast
    qed
    with st fin show ?thesis by blast
  qed
  from inv keep same commits show ?thesis by blast
qed

definition W_added :: world where
  \<comment> \<open>the repository of \<open>W_ab\<close> after \<open>add("a.txt")\<close>\<close>
  "W_added = run (self_of R0) [Add (lit ''a.txt'')] W_ab"

theorem store_grows_witness:
  "repo_inv R0 W_added \<and> list_all op_ok [Add (lit ''a.txt''), Commit (lit ''msg'')]
   \<and> is_id (blob_id (lit ''hello''))
   \<and> files W_added (object_path (self_of R0) (blob_id (lit ''hello''))) = Some (blob (lit ''hello''))
   \<and> stored (self_of R0) [Add (lit ''a.txt'')] W_added = [blob (lit ''hello'')]
   \<and> files (run (self_of R0) [Add (lit ''a.txt'')] W_added)
        (object_path (self_of R0) (blob_id (lit ''hello''))) = Some (blob (lit ''hello''))
   \<and> repo_inv R0 (run (self_of R0) [Add (lit ''a.txt''), Commit (lit ''msg'')] W_added)"
proof -
  let ?S = "self_of R0"
  let ?a = "lit ''a.txt''"
  let ?q = "object_path ?S (blob_id (lit ''hello''))"
  have ok0: "list_all op_ok [Add ?a]"
    by simp
  have inv: "repo_inv R0 W_added"
    unfolding W_added_def by (rule run_inv(1) [OF repo_inv_W_ab ok0])
  have ok: "list_all op_ok [Add ?a, Commit (lit ''msg'')]"
    by simp
  have id: "is_id (blob_id (lit ''hello''))"
    by (simp add: is_id_def blob_id_hex)
  note A = W_ab_facts(1,2,4,5,3) scalar_lit
  have obj: "files W_added ?q = Some (blob (lit ''hello''))"
    by (simp add: W_added_def add_ok [OF A] object_path_def blob_path_not_index
          del: json_dumps.simps)
  have fa: "files W_added ?a = files W_ab ?a"
  proof -
    have "?a \<noteq> index_file ?S"
    proof
      assume "?a = index_file ?S"
      then have "last ?a = 120" by (simp only: index_file_last)
      then show False by (simp add: lit_def)
    qed
    moreover have "47 \<notin> set ?a" by (simp add: lit_def)
    ultimately show ?thesis
      unfolding W_added_def using add_ok_other [OF A] by simp
  qed
  have da: "dirs W_added = dirs W_ab"
    unfolding W_added_def using add_ok_dirs [OF A] by simp
  have ea: "path_exists W_added ?a"
    using W_ab_facts(4) fa da by (simp add: path_exists_def)
  have ta: "read_text ?a W_added = Inr (lit ''hello'')"
    using W_ab_facts(5) read_text_same [OF fa da] by simp
  have enc: "utf8_encode (lit ''hello'') = Inr (blob (lit ''hello''))"
    using scalar_lit [of "''hello''"] by (simp add: utf8_encode_def blob_def)
  have st: "stored ?S [Add ?a] W_added = [blob (lit ''hello'')]"
    using ea ta enc by simp
  have free: "\<forall>b\<in>set (stored ?S [Add ?a] W_added).
                sha1_hexdigest b = sha1_hexdigest (blob (lit ''hello'')) \<longrightarrow> b = blob (lit ''hello'')"
    unfolding st by simp
  from store_grows [OF inv ok0 refl] id obj free
  have kept: "files (run ?S [Add ?a] W_added) ?q = Some (blob (lit ''hello''))"
    by blast
  from store_grows [OF inv ok refl]
  have "repo_inv R0 (run ?S [Add ?a, Commit (lit ''msg'')] W_added)"
    by blast
  with inv ok id obj st kept show ?thesis by blast
qed

text \<open>
  The claim as stated, that no stored object is ever mutated, fails. The digests are
  finitely many, so two of the texts \<open>a\<close>, \<open>aa\<close>, \<open>aaa\<close>, ... have the same digest;
  with one of them in \<open>a.txt\<close> and the other in \<open>b.txt\<close>, beside an empty repository,
  \<open>add("a.txt")\<close> stores an object and \<open>add("b.txt")\<close> then writes other bytes into it.
\<close>

theorem object_overwritten:
  "\<exists>s t h c c'.
     repo_inv R0 (W_two s t) \<and> is_id h
     \<and> files (run (self_of R0) [Add (lit ''a.txt'')] (W_two s t)) (object_path (self_of R0) h) = Some c
     \<and> files (run (self_of R0) [Add (lit ''a.txt''), Add (lit ''b.txt'')] (W_two s t))
          (object_path (self_of R0) h) = Some c'
     \<and> c' \<noteq> c"
proof -
  from sha1_collision obtain m n where mn: "m \<noteq> n" "blob_id (a_text m) = blob_id (a_text n)"
    by blast
  let ?s = "a_text m" and ?t = "a_text n"
  note F = W_two_facts [OF text_char_a_text text_char_a_text, of m n]
  have 1: "files (run (self_of R0) [Add (lit ''a.txt'')] (W_two ?s ?t))
             (object_path (self_of R0) (blob_id ?s)) = Some (blob ?s)"
    by (rule two_adds(1) [OF F(1,2,3,4,5,6,7)])
  have "files (run (self_of R0) [Add (lit ''a.txt''), Add (lit ''b.txt'')] (W_two ?s ?t))
          (object_path (self_of R0) (blob_id ?t)) = Some (blob ?t)"
    by (rule two_adds(2) [OF F(1,2,3,4,5,6,7)])
  then have 2: "files (run (self_of R0) [Add (lit ''a.txt''), Add (lit ''b.txt'')] (W_two ?s ?t))
                  (object_path (self_of R0) (blob_id ?s)) = Some (blob ?t)"
    by (simp add: mn(2))
  have "length (blob ?t) = n" "length (blob ?s) = m"
    by (simp_all only: blob_text [OF text_char_a_text] length_map) (simp_all add: a_text_def)
  then have "length (blob ?t) \<noteq> length (blob ?s)"
    using mn(1) by simp
  then have 3: "blob ?t \<noteq> blob ?s" by auto
  have 4: "is_id (blob_id ?s)"
    by (simp add: is_id_def blob_id_hex)
  from repo_inv_W_two [OF text_char_a_text text_char_a_text, of m n] 1 2 3 4
  show ?thesis by blast
qed

end
